theory Spec2Isabelle
  imports Complex_Main "HOL-Library.Monad_Syntax" "HOL-Library.Log_Nat"
begin

section \<open>JavaScript values used by the story sequencer\<close>

text \<open>
  The step index of \<^verbatim>\<open>suitcase.js\<close> is a JavaScript number. The callers pass either the
  default \<open>0\<close> or the result of \<^verbatim>\<open>parseInt(suitcaseStep, 10)\<close>, which is \<open>NaN\<close> or an
  integer-valued number. \<open>Num k\<close> stands for the number with the integer value \<open>k\<close>; for
  magnitudes beyond \<open>2^53\<close> JavaScript rounds to a double, which does not change the
  outcome of a comparison with a step count.
\<close>

datatype jsnum = NaN | Num int

text \<open>\<^verbatim>\<open>Math.max\<close> and \<^verbatim>\<open>Math.min\<close>: \<open>NaN\<close> as soon as one argument is \<open>NaN\<close>.\<close>

fun js_max :: "jsnum \<Rightarrow> jsnum \<Rightarrow> jsnum" where
  "js_max (Num a) (Num b) = Num (max a b)"
| "js_max _ _ = NaN"

fun js_min :: "jsnum \<Rightarrow> jsnum \<Rightarrow> jsnum" where
  "js_min (Num a) (Num b) = Num (min a b)"
| "js_min _ _ = NaN"

text \<open>The comparisons \<^verbatim>\<open>>=\<close> and \<^verbatim>\<open><\<close>: false as soon as one side is \<open>NaN\<close>.\<close>

fun js_ge :: "jsnum \<Rightarrow> jsnum \<Rightarrow> bool" where
  "js_ge (Num a) (Num b) = (b \<le> a)"
| "js_ge _ _ = False"

fun js_lt :: "jsnum \<Rightarrow> jsnum \<Rightarrow> bool" where
  "js_lt (Num a) (Num b) = (a < b)"
| "js_lt _ _ = False"

text \<open>\<^verbatim>\<open>x++\<close> on a number variable.\<close>

fun js_inc :: "jsnum \<Rightarrow> jsnum" where
  "js_inc (Num a) = Num (a + 1)"
| "js_inc NaN = NaN"

text \<open>
  \<^verbatim>\<open>parseInt(s, 10)\<close>: leading white space is skipped, one sign is read, then the longest
  run of decimal digits; no digit gives \<open>NaN\<close>. (With radix 10 no \<^verbatim>\<open>0x\<close> prefix is
  stripped. Only the ASCII white space characters are listed.)
\<close>

definition isWhiteSpace :: "char \<Rightarrow> bool" where
  "isWhiteSpace c = (c \<in> set [CHR '' '', CHR 0x09, CHR 0x0A, CHR 0x0B, CHR 0x0C, CHR 0x0D])"

definition isDigit :: "char \<Rightarrow> bool" where
  "isDigit c = (c \<in> set ''0123456789'')"

definition digitValue :: "char \<Rightarrow> int" where
  "digitValue c = int (of_char c) - 48"

definition parseInt10 :: "string \<Rightarrow> jsnum" where
  "parseInt10 s =
     (let t = dropWhile isWhiteSpace s;
          neg = (t \<noteq> [] \<and> hd t = CHR ''-'');
          u = (if t \<noteq> [] \<and> (hd t = CHR ''-'' \<or> hd t = CHR ''+'') then tl t else t);
          ds = takeWhile isDigit u
      in if ds = [] then NaN
         else Num ((if neg then - 1 else 1) * foldl (\<lambda>a c. 10 * a + digitValue c) 0 ds))"

section \<open>The story sequencer (\<^verbatim>\<open>suitcase.js\<close>)\<close>

text \<open>
  Of the class list of a \<^verbatim>\<open>.suitcase-step\<close> element the code reads and writes the two
  classes \<^verbatim>\<open>active\<close> and \<^verbatim>\<open>exited\<close>; the record holds whether each is present.
\<close>

record classList =
  active :: bool
  exited :: bool

text \<open>
  The part of the page shared by every call of \<^verbatim>\<open>initSuitcase\<close>: the step elements, the
  dots (whether each bears \<^verbatim>\<open>active\<close>), the \<^verbatim>\<open>display\<close> style of the tap hint, and the
  module variable \<^verbatim>\<open>mapInitialised\<close>. Two fields observe effects and are no program
  variables: \<open>mapInits\<close> counts how often \<^verbatim>\<open>initMap\<close> went past its guard (and so
  scheduled the construction of the Leaflet map), and \<open>shown\<close> lists, oldest first,
  the indices that \<^verbatim>\<open>showStep\<close> displayed (each run of its body past the guard).
\<close>

record dom =
  steps :: "classList list"
  dots :: "bool list"
  tapHintDisplay :: string
  mapInitialised :: bool
  mapInits :: nat
  shown :: "jsnum list"

text \<open>
  The variables closed over by one call of \<^verbatim>\<open>initSuitcase\<close>; \<open>timers\<close> is the number
  of pending \<^verbatim>\<open>setTimeout(() => { transitioning = false; }, 580)\<close> callbacks.
\<close>

record sequencer =
  totalSteps :: int
  currentStep :: jsnum
  transitioning :: bool
  timers :: nat

definition initMap :: "dom \<Rightarrow> dom" where
  "initMap d =
     (if mapInitialised d then d
      else d\<lparr>mapInitialised := True, mapInits := mapInits d + 1\<rparr>)"

text \<open>The body of \<^verbatim>\<open>steps.forEach\<close> in \<^verbatim>\<open>showStep\<close>, for the element at position \<open>i\<close>.\<close>

definition stepClasses :: "jsnum \<Rightarrow> nat \<Rightarrow> classList \<Rightarrow> classList" where
  "stepClasses index i c =
     (if Num (int i) = index then c\<lparr>exited := False, active := True\<rparr>
      else if js_lt (Num (int i)) index then c\<lparr>active := False, exited := True\<rparr>
      else c\<lparr>active := False, exited := False\<rparr>)"

definition showStep :: "jsnum \<Rightarrow> bool \<Rightarrow> sequencer \<times> dom \<Rightarrow> sequencer \<times> dom" where
  "showStep index animate qd =
     (let q = fst qd; d = snd qd in
      if animate \<and> transitioning q then (q, d)
      else
        let q1 = (if animate then q\<lparr>transitioning := True\<rparr> else q);
            d1 = d\<lparr>steps := map (\<lambda>(i, c). stepClasses index i c) (enumerate 0 (steps d)),
                   shown := shown d @ [index]\<rparr>;
            d2 = d1\<lparr>dots := map (\<lambda>(i, b). Num (int i) = index) (enumerate 0 (dots d1))\<rparr>;
            d3 = d2\<lparr>tapHintDisplay :=
                       (if js_ge index (Num (totalSteps q1 - 1)) then ''none'' else '''')\<rparr>;
            d4 = (if index = Num 2 then initMap d3 else d3);
            q2 = (if animate then q1\<lparr>timers := timers q1 + 1\<rparr> else q1)
        in (q2, d4))"

text \<open>
  \<^verbatim>\<open>initSuitcase(startAt)\<close> up to the registration of its click listener: the closure it
  creates and the page after \<^verbatim>\<open>showStep(currentStep, false)\<close>. A call without argument
  is \<open>initSuitcase (Num 0)\<close>.
\<close>

definition initSuitcase :: "jsnum \<Rightarrow> dom \<Rightarrow> sequencer \<times> dom" where
  "initSuitcase startAt d =
     (let total = int (length (steps d));
          cur = js_min (js_max startAt (Num 0)) (Num (total - 1));
          q = \<lparr>totalSteps = total, currentStep = cur, transitioning = False, timers = 0\<rparr>
      in showStep cur False (q, d))"

text \<open>
  The click listener on \<^verbatim>\<open>#screen-suitcase\<close>; the argument tells whether the click's
  target lies inside \<^verbatim>\<open>#btn-show-gift\<close>.
\<close>

definition click :: "bool \<Rightarrow> sequencer \<times> dom \<Rightarrow> sequencer \<times> dom" where
  "click onGiftButton qd =
     (let q = fst qd; d = snd qd in
      if onGiftButton then (q, d)
      else if js_ge (currentStep q) (Num (totalSteps q - 1)) then (q, d)
      else
        let q' = q\<lparr>currentStep := js_inc (currentStep q)\<rparr>
        in showStep (currentStep q') True (q', d))"

text \<open>A pending 580 ms timer fires (nothing happens when none is pending).\<close>

definition timeout :: "sequencer \<times> dom \<Rightarrow> sequencer \<times> dom" where
  "timeout qd =
     (let q = fst qd; d = snd qd in
      if timers q = 0 then (q, d)
      else (q\<lparr>transitioning := False, timers := timers q - 1\<rparr>, d))"

text \<open>
  One run of the sequencer: the events the browser delivers to the closure of one
  \<^verbatim>\<open>initSuitcase\<close> call, one at a time (JavaScript runs each handler to completion).
\<close>

datatype event = Tap | TapGift | Timeout

fun step :: "event \<Rightarrow> sequencer \<times> dom \<Rightarrow> sequencer \<times> dom" where
  "step Tap qd = click False qd"
| "step TapGift qd = click True qd"
| "step Timeout qd = timeout qd"

definition exec :: "event list \<Rightarrow> sequencer \<times> dom \<Rightarrow> sequencer \<times> dom" where
  "exec es qd = foldl (\<lambda>s e. step e s) qd es"

text \<open>
  The page when the script is loaded: the classes of the steps and dots and the style of
  the tap hint are those of the HTML document (which is not part of the scripts, so they
  are parameters), and \<^verbatim>\<open>mapInitialised\<close> is \<^verbatim>\<open>false\<close>.
\<close>

definition loadDom :: "classList list \<Rightarrow> bool list \<Rightarrow> string \<Rightarrow> dom" where
  "loadDom stepsHtml dotsHtml hintHtml =
     \<lparr>steps = stepsHtml, dots = dotsHtml, tapHintDisplay = hintHtml,
      mapInitialised = False, mapInits = 0, shown = []\<rparr>"

text \<open>A document with \<open>n\<close> steps and \<open>n\<close> dots, none of them bearing a class.\<close>

definition freshDom :: "nat \<Rightarrow> dom" where
  "freshDom n = loadDom (replicate n \<lparr>active = False, exited = False\<rparr>) (replicate n False) []"

text \<open>The positions of the steps that bear \<^verbatim>\<open>active\<close>.\<close>

definition activeSteps :: "dom \<Rightarrow> nat list" where
  "activeSteps d = map fst (filter (\<lambda>(i, c). active c) (enumerate 0 (steps d)))"

section \<open>The page under several calls of \<^verbatim>\<open>initSuitcase\<close>\<close>

text \<open>
  Every call of \<^verbatim>\<open>initSuitcase\<close> creates a closure of its own and adds one more click
  listener to \<^verbatim>\<open>#screen-suitcase\<close>; the step elements, the dots, the tap hint and
  \<^verbatim>\<open>mapInitialised\<close> are shared. A click runs the listeners in the order of their
  registration.
\<close>

record page =
  pdom :: dom
  listeners :: "sequencer list"

definition initSuitcasePage :: "jsnum \<Rightarrow> page \<Rightarrow> page" where
  "initSuitcasePage startAt p =
     (let qd = initSuitcase startAt (pdom p)
      in p\<lparr>pdom := snd qd, listeners := listeners p @ [fst qd]\<rparr>)"

fun clickAll :: "bool \<Rightarrow> sequencer list \<Rightarrow> dom \<Rightarrow> sequencer list \<times> dom" where
  "clickAll g [] d = ([], d)"
| "clickAll g (q # qs) d =
     (let qd = click g (q, d); rest = clickAll g qs (snd qd)
      in (fst qd # fst rest, snd rest))"

definition pageClick :: "bool \<Rightarrow> page \<Rightarrow> page" where
  "pageClick g p =
     (let r = clickAll g (listeners p) (pdom p)
      in p\<lparr>listeners := fst r, pdom := snd r\<rparr>)"

text \<open>The pending timer of the \<open>i\<close>-th closure fires.\<close>

definition pageTimeout :: "nat \<Rightarrow> page \<Rightarrow> page" where
  "pageTimeout i p =
     (if i < length (listeners p)
      then let qd = timeout (listeners p ! i, pdom p)
           in p\<lparr>listeners := (listeners p)[i := fst qd], pdom := snd qd\<rparr>
      else p)"

datatype pageEvent = PInit jsnum | PTap | PTapGift | PTimeout nat

fun pageStep :: "pageEvent \<Rightarrow> page \<Rightarrow> page" where
  "pageStep (PInit startAt) p = initSuitcasePage startAt p"
| "pageStep PTap p = pageClick False p"
| "pageStep PTapGift p = pageClick True p"
| "pageStep (PTimeout i) p = pageTimeout i p"

text \<open>Whether an event is a call of \<^verbatim>\<open>initSuitcase\<close>.\<close>

fun isInit :: "pageEvent \<Rightarrow> bool" where
  "isInit (PInit startAt) = True"
| "isInit e = False"

definition pageExec :: "pageEvent list \<Rightarrow> page \<Rightarrow> page" where
  "pageExec es p = foldl (\<lambda>s e. pageStep e s) p es"

section \<open>The flow controller (\<^verbatim>\<open>app.js\<close>)\<close>

text \<open>
  The object \<^verbatim>\<open>screens\<close>: its keys in the order of the object literal, each with whether
  its element bears the class \<^verbatim>\<open>active\<close>. (The elements are those of the HTML document,
  taken to exist. The copy of \<^verbatim>\<open>app.js\<close> that follows \<^verbatim>\<open>video.js\<close> has a fifth key
  \<^verbatim>\<open>video\<close> between \<^verbatim>\<open>suitcase\<close> and \<^verbatim>\<open>model\<close> and is otherwise the same.)
\<close>

definition screenKeys :: "string list" where
  "screenKeys = [''progress'', ''error'', ''suitcase'', ''model'']"

text \<open>
  The property names every object inherits from \<^verbatim>\<open>Object.prototype\<close>: for them too
  \<^verbatim>\<open>screens[skipTo]\<close> is truthy.
\<close>

definition objectPrototypeKeys :: "string list" where
  "objectPrototypeKeys =
     [''constructor'', ''__proto__'', ''hasOwnProperty'', ''isPrototypeOf'',
      ''propertyIsEnumerable'', ''toLocaleString'', ''toString'', ''valueOf'',
      ''__defineGetter__'', ''__defineSetter__'', ''__lookupGetter__'', ''__lookupSetter__'']"

text \<open>
  The state of the application. \<open>flowsStarted\<close> counts the calls of \<^verbatim>\<open>startFlow\<close> (each
  runs the progress sequence), \<open>flowsRunning\<close> those still waiting at
  \<^verbatim>\<open>await runProgress()\<close>, \<open>modelViewers\<close> the calls of \<^verbatim>\<open>initModelViewer\<close>. The classes
  \<^verbatim>\<open>flash\<close> and \<^verbatim>\<open>shake\<close> of the error screen are left out.
\<close>

record app =
  screens :: "(string \<times> bool) list"
  story :: page
  flowsStarted :: nat
  flowsRunning :: nat
  modelViewers :: nat

definition showScreen :: "string \<Rightarrow> (string \<times> bool) list \<Rightarrow> (string \<times> bool) list" where
  "showScreen name scr = map (\<lambda>(key, el). if key = name then (key, True) else (key, False)) scr"

text \<open>\<^verbatim>\<open>startFlow\<close> up to its \<^verbatim>\<open>await\<close>, and its continuation once the progress sequence resolved.\<close>

definition startFlow :: "app \<Rightarrow> app" where
  "startFlow a =
     a\<lparr>screens := showScreen ''progress'' (screens a),
       flowsStarted := flowsStarted a + 1, flowsRunning := flowsRunning a + 1\<rparr>"

definition progressDone :: "app \<Rightarrow> app" where
  "progressDone a =
     (if flowsRunning a = 0 then a
      else a\<lparr>screens := showScreen ''error'' (screens a), flowsRunning := flowsRunning a - 1\<rparr>)"

definition jumpTo :: "string \<Rightarrow> string option \<Rightarrow> app \<Rightarrow> app" where
  "jumpTo name suitcaseStep a =
     (let a1 = a\<lparr>screens := showScreen name (screens a)\<rparr> in
      if name = ''error'' then a1
      else if name = ''suitcase'' then
        a1\<lparr>story := initSuitcasePage
                        (case suitcaseStep of None \<Rightarrow> Num 0 | Some s \<Rightarrow> parseInt10 s) (story a1)\<rparr>
      else if name = ''model'' then a1\<lparr>modelViewers := modelViewers a1 + 1\<rparr>
      else startFlow a1)"

text \<open>
  The end of \<^verbatim>\<open>init\<close>, for the query parameters \<^verbatim>\<open>screen\<close> and \<^verbatim>\<open>step\<close> (\<open>None\<close> when the
  parameter is absent): \<^verbatim>\<open>skipTo && screens[skipTo]\<close> is truthy for a non-empty
  \<^verbatim>\<open>skipTo\<close> that is a key of \<^verbatim>\<open>screens\<close> or an inherited property name.
\<close>

definition init :: "string option \<Rightarrow> string option \<Rightarrow> app \<Rightarrow> app" where
  "init skipTo suitcaseStep a =
     (case skipTo of
        None \<Rightarrow> startFlow a
      | Some name \<Rightarrow>
          if name \<noteq> [] \<and> (name \<in> set (map fst (screens a)) \<or> name \<in> set objectPrototypeKeys)
          then jumpTo name suitcaseStep a
          else startFlow a)"

text \<open>
  What can happen after \<^verbatim>\<open>init\<close>: a click on \<^verbatim>\<open>#btn-next-steps\<close>, a click on
  \<^verbatim>\<open>#btn-show-gift\<close> (its listener stops the propagation, so the listeners of the story
  do not run), a tap elsewhere on the story screen, a transition timer of the \<open>i\<close>-th
  story closure, and the end of a running progress sequence.
\<close>

datatype appEvent = ClickNextSteps | ClickShowGift | TapStory | StoryTimer nat | ProgressDone

fun appStep :: "appEvent \<Rightarrow> app \<Rightarrow> app" where
  "appStep ClickNextSteps a =
     a\<lparr>screens := showScreen ''suitcase'' (screens a),
       story := initSuitcasePage (Num 0) (story a)\<rparr>"
| "appStep ClickShowGift a =
     a\<lparr>screens := showScreen ''model'' (screens a), modelViewers := modelViewers a + 1\<rparr>"
| "appStep TapStory a = a\<lparr>story := pageClick False (story a)\<rparr>"
| "appStep (StoryTimer i) a = a\<lparr>story := pageTimeout i (story a)\<rparr>"
| "appStep ProgressDone a = progressDone a"

definition appExec :: "appEvent list \<Rightarrow> app \<Rightarrow> app" where
  "appExec es a = foldl (\<lambda>s e. appStep e s) a es"

text \<open>
  The application when the script is loaded: whether each screen bears \<^verbatim>\<open>active\<close> in the
  HTML document, and the page of the story.
\<close>

definition appLoad :: "bool \<Rightarrow> bool \<Rightarrow> bool \<Rightarrow> bool \<Rightarrow> dom \<Rightarrow> app" where
  "appLoad p e s m d =
     \<lparr>screens = [(''progress'', p), (''error'', e), (''suitcase'', s), (''model'', m)],
      story = \<lparr>pdom = d, listeners = []\<rparr>,
      flowsStarted = 0, flowsRunning = 0, modelViewers = 0\<rparr>"

text \<open>The keys of the screens that bear \<^verbatim>\<open>active\<close>.\<close>

definition activeScreens :: "app \<Rightarrow> string list" where
  "activeScreens a = map fst (filter snd (screens a))"

section \<open>The fill animator (\<^verbatim>\<open>animateFill\<close> in \<^verbatim>\<open>progress.js\<close>)\<close>

subsection \<open>JavaScript numbers\<close>

text \<open>
  The numbers of the animator are IEEE-754 binary64 values: every arithmetic operation of
  the source returns the exact result rounded to the nearest double, ties to the even
  significand. A finite double is modelled by the rational it denotes, \<open>Fin x\<close>, and the
  operations round explicitly with \<open>toDouble\<close>. The two zeros are one value, \<open>Fin 0\<close>, read as
  \<open>+0\<close>: in the animator the sign of a zero can only show in the sign of the infinity that a
  division by a zero duration returns.
\<close>

datatype jsfloat = FNaN | PosInfinity | NegInfinity | Fin rat

text \<open>Rounding of a rational to the nearest integer, a tie going to the even one.\<close>

definition roundHalfEven :: "rat \<Rightarrow> int" where
  "roundHalfEven y =
     (let f = \<lfloor>y\<rfloor>; d = y - of_int f
      in if d < 1 / 2 then f else if 1 / 2 < d then f + 1 else if even f then f else f + 1)"

text \<open>
  \<open>binaryExponent x\<close> is \<open>\<lfloor>log\<^sub>2 x\<rfloor>\<close> for a positive rational \<open>x\<close>: the bit length of
  \<open>\<lfloor>x\<rfloor>\<close> less one from \<open>1\<close> upwards, and below \<open>1\<close> the negated bit length of \<open>\<lceil>1 / x\<rceil> - 1\<close>.
\<close>

definition binaryExponent :: "rat \<Rightarrow> int" where
  "binaryExponent x =
     (if 1 \<le> x then bitlen \<lfloor>x\<rfloor> - 1 else - bitlen (\<lceil>1 / x\<rceil> - 1))"

text \<open>
  The double nearest to a rational. The significand has 53 bits, so the spacing of the
  doubles around \<open>x\<close> is \<open>2\<close> to the power \<open>q = max \<lfloor>log\<^sub>2 \<bar>x\<bar>\<rfloor> (- 1022) - 52\<close> (the bound
  \<open>- 1022\<close> gives the subnormal numbers); \<open>\<bar>x\<bar>\<close> is rounded to a multiple of that spacing,
  and a result of \<open>2\<^sup>1\<^sup>0\<^sup>2\<^sup>4\<close> or more overflows to an infinity.
\<close>

definition toDouble :: "rat \<Rightarrow> jsfloat" where
  "toDouble x =
     (if x = 0 then Fin 0
      else
        let q = max (binaryExponent \<bar>x\<bar>) (- 1022) - 52;
            m = roundHalfEven (\<bar>x\<bar> / 2 powi q);
            r = of_int m * 2 powi q
        in if 2 ^ 1024 \<le> r then (if 0 < x then PosInfinity else NegInfinity)
           else Fin (sgn x * r))"

text \<open>The sign of a value, and the infinity of a sign.\<close>

fun fsign :: "jsfloat \<Rightarrow> int" where
  "fsign (Fin a) = (if a < 0 then - 1 else if a = 0 then 0 else 1)"
| "fsign PosInfinity = 1"
| "fsign NegInfinity = - 1"
| "fsign FNaN = 0"

definition infinity :: "int \<Rightarrow> jsfloat" where
  "infinity s = (if 0 < s then PosInfinity else NegInfinity)"

text \<open>The operators \<^verbatim>\<open>+\<close>, \<^verbatim>\<open>-\<close>, \<^verbatim>\<open>*\<close>, \<^verbatim>\<open>/\<close> and \<^verbatim>\<open><\<close> on numbers.\<close>

fun fneg :: "jsfloat \<Rightarrow> jsfloat" where
  "fneg (Fin a) = Fin (- a)"
| "fneg PosInfinity = NegInfinity"
| "fneg NegInfinity = PosInfinity"
| "fneg FNaN = FNaN"

fun fadd :: "jsfloat \<Rightarrow> jsfloat \<Rightarrow> jsfloat" where
  "fadd (Fin a) (Fin b) = toDouble (a + b)"
| "fadd FNaN y = FNaN"
| "fadd x FNaN = FNaN"
| "fadd PosInfinity NegInfinity = FNaN"
| "fadd NegInfinity PosInfinity = FNaN"
| "fadd PosInfinity y = PosInfinity"
| "fadd NegInfinity y = NegInfinity"
| "fadd (Fin a) y = y"

definition fsub :: "jsfloat \<Rightarrow> jsfloat \<Rightarrow> jsfloat" where
  "fsub x y = fadd x (fneg y)"

fun fmul :: "jsfloat \<Rightarrow> jsfloat \<Rightarrow> jsfloat" where
  "fmul (Fin a) (Fin b) = toDouble (a * b)"
| "fmul FNaN y = FNaN"
| "fmul x FNaN = FNaN"
| "fmul x y = (if fsign x * fsign y = 0 then FNaN else infinity (fsign x * fsign y))"

fun fdiv :: "jsfloat \<Rightarrow> jsfloat \<Rightarrow> jsfloat" where
  "fdiv (Fin a) (Fin b) =
     (if b \<noteq> 0 then toDouble (a / b)
      else if a = 0 then FNaN else infinity (fsign (Fin a)))"
| "fdiv FNaN y = FNaN"
| "fdiv x FNaN = FNaN"
| "fdiv (Fin a) y = Fin 0"
| "fdiv x (Fin b) = infinity (fsign x * (if b < 0 then - 1 else 1))"
| "fdiv x y = FNaN"

fun flt :: "jsfloat \<Rightarrow> jsfloat \<Rightarrow> bool" where
  "flt (Fin a) (Fin b) = (a < b)"
| "flt FNaN y = False"
| "flt x FNaN = False"
| "flt x NegInfinity = False"
| "flt NegInfinity y = True"
| "flt PosInfinity y = False"
| "flt (Fin a) PosInfinity = True"

text \<open>\<^verbatim>\<open>Math.min(x, y)\<close>: \<open>NaN\<close> if an argument is \<open>NaN\<close>, else the smaller one.\<close>

definition fmin :: "jsfloat \<Rightarrow> jsfloat \<Rightarrow> jsfloat" where
  "fmin x y = (if x = FNaN \<or> y = FNaN then FNaN else if flt y x then y else x)"

text \<open>
  \<^verbatim>\<open>Math.pow(x, 2)\<close>, taken as the square rounded once. The language leaves the precision of
  \<^verbatim>\<open>Math.pow\<close> to the engine except at special arguments; at the argument \<open>0\<close>, the one
  that the last frame of an animation passes, the result \<open>0\<close> is fixed by the language.
\<close>

definition fpow2 :: "jsfloat \<Rightarrow> jsfloat" where
  "fpow2 x = fmul x x"

subsection \<open>A frame\<close>

text \<open>
  \<^verbatim>\<open>const elapsed = now - start; const progress = Math.min(elapsed / duration, 1);\<close>
  The time stamps \<open>start\<close> (from \<^verbatim>\<open>performance.now()\<close>) and \<open>now\<close> (passed to the frame
  callback) are finite numbers; the duration is any number.
\<close>

definition progressAt :: "rat \<Rightarrow> jsfloat \<Rightarrow> rat \<Rightarrow> jsfloat" where
  "progressAt start duration now = fmin (fdiv (fsub (Fin now) (Fin start)) duration) (Fin 1)"

text \<open>
  \<^verbatim>\<open>progress < 0.5 ? 2 * progress * progress : 1 - Math.pow(-2 * progress + 2, 2) / 2\<close>,
  each operation rounding its result.
\<close>

definition eased :: "jsfloat \<Rightarrow> jsfloat" where
  "eased progress =
     (if flt progress (Fin (1 / 2)) then fmul (fmul (Fin 2) progress) progress
      else fsub (Fin 1) (fdiv (fpow2 (fadd (fmul (Fin (- 2)) progress) (Fin 2))) (Fin 2)))"

text \<open>
  The easing curve in the words of the specification, \<open>2t\<^sup>2\<close> for \<open>t < 0.5\<close> and
  \<open>1 - ((-2t + 2)\<^sup>2) / 2\<close> otherwise, over the exact rationals, to compare \<open>eased\<close> with.
\<close>

definition easeInOutQuad_spec :: "rat \<Rightarrow> rat" where
  "easeInOutQuad_spec t = (if t < 1 / 2 then 2 * t\<^sup>2 else 1 - ((- 2 * t + 2)\<^sup>2) / 2)"

text \<open>
  One call of the callback \<^verbatim>\<open>frame(now)\<close>, for the \<open>start\<close> and \<open>startWidth\<close> that
  \<^verbatim>\<open>animateFill\<close> has captured: the number written to \<^verbatim>\<open>fill.style.width\<close>, which is
  \<^verbatim>\<open>startWidth + delta * eased\<close>, and whether \<^verbatim>\<open>progress < 1\<close>, in which case another frame
  is requested; otherwise the promise is resolved.
\<close>

definition frame :: "rat \<Rightarrow> jsfloat \<Rightarrow> jsfloat \<Rightarrow> jsfloat \<Rightarrow> rat \<Rightarrow> jsfloat \<times> bool" where
  "frame start startWidth target duration now =
     (let delta = fsub target startWidth;
          progress = progressAt start duration now
      in (fadd startWidth (fmul delta (eased progress)), flt progress (Fin 1)))"

subsection \<open>An animation\<close>

text \<open>
  The indicator. \<open>styleWidth\<close> is the number of percent last written to
  \<^verbatim>\<open>fill.style.width\<close>, \<open>None\<close> for the empty string of an element whose width was never
  written. How the browser parses and prints the written text is not part of the source and
  is not modelled: reading the property gives back the number written.
\<close>

record fill =
  styleWidth :: "jsfloat option"

text \<open>
  \<^verbatim>\<open>parseFloat(fill.style.width) || 0\<close>: \<^verbatim>\<open>parseFloat\<close> of the empty string is \<open>NaN\<close>, and
  \<open>NaN\<close> and \<open>0\<close> are falsy.
\<close>

definition startWidthOf :: "fill \<Rightarrow> jsfloat" where
  "startWidthOf f =
     (case styleWidth f of
        None \<Rightarrow> Fin 0
      | Some w \<Rightarrow> if w = FNaN \<or> w = Fin 0 then Fin 0 else w)"

text \<open>
  The frames of one animation. \<open>nows\<close> lists the time stamps that the browser passes to the
  successive callbacks. Each frame writes the width; a frame with \<^verbatim>\<open>progress < 1\<close> requests
  the next one, any other frame resolves the promise and no frame follows it. The result is
  the indicator after the frames that ran and whether the promise has been resolved.
\<close>

fun frames :: "rat \<Rightarrow> jsfloat \<Rightarrow> jsfloat \<Rightarrow> jsfloat \<Rightarrow> rat list \<Rightarrow> fill \<Rightarrow> fill \<times> bool" where
  "frames start startWidth target duration [] f = (f, False)"
| "frames start startWidth target duration (now # nows) f =
     (let r = frame start startWidth target duration now;
          f' = f\<lparr>styleWidth := Some (fst r)\<rparr>
      in if snd r then frames start startWidth target duration nows f' else (f', True))"

text \<open>
  \<^verbatim>\<open>animateFill(fill, target, duration)\<close> called at the time \<open>start\<close>: it reads the start width
  from the indicator and requests the first frame.
\<close>

definition animateFill :: "fill \<Rightarrow> jsfloat \<Rightarrow> jsfloat \<Rightarrow> rat \<Rightarrow> rat list \<Rightarrow> fill \<times> bool" where
  "animateFill f target duration start nows =
     frames start (startWidthOf f) target duration nows f"

section \<open>The progress sequencer (\<^verbatim>\<open>runProgress\<close> in \<^verbatim>\<open>progress.js\<close>)\<close>

record progressStep =
  label :: string
  colour :: string
  duration :: rat
  failAt :: "rat option"

definition STEPS :: "progressStep list" where
  "STEPS =
     [\<lparr>label = ''Authenticating'', colour = ''lavender'', duration = 2200, failAt = None\<rparr>,
      \<lparr>label = ''Locating gift'', colour = ''pink'', duration = 2800, failAt = None\<rparr>,
      \<lparr>label = ''Cross-referencing list of gift ideas'', colour = ''mint'', duration = 2000,
        failAt = None\<rparr>,
      \<lparr>label = ''Verifying recipient'', colour = ''coral'', duration = 1800, failAt = None\<rparr>,
      \<lparr>label = ''Finalising'', colour = ''gold'', duration = 3000, failAt = Some 87\<rparr>]"

text \<open>
  \<^verbatim>\<open>if (step.failAt)\<close>: the failure point of a step, when the field is present and
  truthy (the number 0 is falsy).
\<close>

definition failPoint :: "progressStep \<Rightarrow> rat option" where
  "failPoint pstep = (case failAt pstep of None \<Rightarrow> None | Some p \<Rightarrow> if p = 0 then None else Some p)"

text \<open>
  What \<^verbatim>\<open>runProgress\<close> does to the page, as a time line. An entry is one effect on the
  progress item of the step \<open>item\<close>, with the time at which it begins and ends (in ms
  since the call; only a fill animation takes time). Between effects the function
  waits at its \<^verbatim>\<open>await\<close>s: \<open>clock\<close> is the time at which it goes on. A timer of \<open>ms\<close> and
  an animation of \<open>duration\<close> are taken to last exactly that long (the browser makes them
  last at least that long).
\<close>

datatype effect =
    AppendItem
  | ItemClass string
  | FillTo rat rat
  | StatusPercent rat
  | StatusText string
  | StatusClass string
  | StatusTick
  | FillBackground string

record entry =
  item :: nat
  begins :: rat
  ends :: rat
  effect :: effect

record timeline =
  clock :: rat
  entries :: "entry list"

definition emit :: "nat \<Rightarrow> effect \<Rightarrow> timeline \<Rightarrow> timeline" where
  "emit i e t =
     t\<lparr>entries := entries t @ [\<lparr>item = i, begins = clock t, ends = clock t, effect = e\<rparr>]\<rparr>"

text \<open>\<^verbatim>\<open>await sleep(ms)\<close>\<close>

definition sleep :: "rat \<Rightarrow> timeline \<Rightarrow> timeline" where
  "sleep ms t = t\<lparr>clock := clock t + ms\<rparr>"

text \<open>
  \<^verbatim>\<open>await animateFill(fill, target, duration)\<close> on the fill of item \<open>i\<close>. With a negative
  duration \<^verbatim>\<open>progress\<close> never reaches 1 and the promise is never resolved: \<open>None\<close>.
\<close>

definition awaitFill :: "nat \<Rightarrow> rat \<Rightarrow> rat \<Rightarrow> timeline \<Rightarrow> timeline option" where
  "awaitFill i target dur t =
     (if dur < 0 then None
      else Some (t\<lparr>entries := entries t @
                      [\<lparr>item = i, begins = clock t, ends = clock t + dur,
                        effect = FillTo target dur\<rparr>],
                    clock := clock t + dur\<rparr>))"

text \<open>The value given to \<^verbatim>\<open>fill.style.background\<close> when a step fails.\<close>

definition errorBackground :: string where
  "errorBackground = ''linear-gradient(90deg, var(--error-red), #E57373)''"

text \<open>The body of the \<^verbatim>\<open>for\<close> loop for the step at index \<open>i\<close>.\<close>

definition runStep :: "nat \<Rightarrow> progressStep \<Rightarrow> timeline \<Rightarrow> timeline option" where
  "runStep i pstep t0 =
     (let t1 = emit i AppendItem t0;
          t2 = sleep 300 t1;
          t3 = emit i (ItemClass ''visible'') t2;
          t4 = sleep 200 t3
      in case failPoint pstep of
           Some p \<Rightarrow> do {
             t5 \<leftarrow> awaitFill i p (duration pstep * (p / 100)) t4;
             let t6 = emit i (StatusPercent p) t5;
             let t7 = sleep 800 t6;
             t8 \<leftarrow> awaitFill i (p + 1) 400 t7;
             let t9 = emit i (StatusPercent (p + 1)) t8;
             let t10 = sleep 600 t9;
             t11 \<leftarrow> awaitFill i (p - 2) 200 t10;
             let t12 = emit i (StatusText ''FAILED'') t11;
             let t13 = emit i (StatusClass ''fail'') t12;
             let t14 = emit i (FillBackground errorBackground) t13;
             Some (sleep 1200 t14)
           }
         | None \<Rightarrow> do {
             t5 \<leftarrow> awaitFill i 100 (duration pstep) t4;
             let t6 = emit i (StatusText []) t5;
             let t7 = emit i (StatusClass ''done'') t6;
             let t8 = emit i StatusTick t7;
             Some (sleep 400 t8)
           })"

text \<open>The loop from index \<open>i\<close> on, over the steps that remain.\<close>

fun runSteps :: "nat \<Rightarrow> progressStep list \<Rightarrow> timeline \<Rightarrow> timeline option" where
  "runSteps i [] t = Some t"
| "runSteps i (pstep # rest) t = do { t' \<leftarrow> runStep i pstep t; runSteps (Suc i) rest t' }"

text \<open>
  \<^verbatim>\<open>runProgress\<close> for a list of steps (the emptied \<^verbatim>\<open>#progress-list\<close> is the empty time
  line), and for the constant \<^verbatim>\<open>STEPS\<close> of the module.
\<close>

definition runProgressOn :: "progressStep list \<Rightarrow> timeline option" where
  "runProgressOn psteps =
     do { t \<leftarrow> runSteps 0 psteps \<lparr>clock = 0, entries = []\<rparr>; Some (sleep 600 t) }"

definition runProgress :: "timeline option" where
  "runProgress = runProgressOn STEPS"

text \<open>
  \<open>growsBy P a b\<close>: the time line \<open>b\<close> continues \<open>a\<close>, by effects on items that satisfy
  \<open>P\<close> only, none of which begins before the clock of \<open>a\<close> and all of which have ended by
  the clock of \<open>b\<close>.
\<close>

definition growsBy :: "(nat \<Rightarrow> bool) \<Rightarrow> timeline \<Rightarrow> timeline \<Rightarrow> bool" where
  "growsBy P a b =
     (clock a \<le> clock b
      \<and> (\<exists>new. entries b = entries a @ new
            \<and> (\<forall>x \<in> set new. P (item x) \<and> clock a \<le> begins x \<and> begins x \<le> ends x
                  \<and> ends x \<le> clock b)))"

section \<open>Properties of the story sequencer\<close>

text \<open>
  C9. A tap on the story container while the current step index equals
  \<open>totalSteps - 1\<close> changes nothing: the closure (step index, transition flag, pending
  timers) and the page (step classes, dots, tap hint, map flag and map count) are the
  same afterwards.
\<close>

theorem C9_tap_at_last_step_unchanged:
  "currentStep q = Num (totalSteps q - 1) \<Longrightarrow> step Tap (q, d) = (q, d)"
  by (simp add: click_def)

theorem C9_tap_at_last_step_witness:
  "currentStep (fst (initSuitcase (Num 3) (freshDom 4)))
     = Num (totalSteps (fst (initSuitcase (Num 3) (freshDom 4))) - 1)
   \<and> step Tap (initSuitcase (Num 3) (freshDom 4)) = initSuitcase (Num 3) (freshDom 4)"
proof -
  obtain q d where qd: "initSuitcase (Num 3) (freshDom 4) = (q, d)"
    by (cases "initSuitcase (Num 3) (freshDom 4)")
  have cur: "currentStep q = Num (totalSteps q - 1)"
    using qd by (auto simp: initSuitcase_def showStep_def freshDom_def loadDom_def Let_def)
  show ?thesis
    using C9_tap_at_last_step_unchanged [OF cur, of d] cur qd by simp
qed


subsection \<open>What an event does to the closure\<close>

lemma showStep_currentStep [simp]:
  "currentStep (fst (showStep i a qd)) = currentStep (fst qd)"
  by (simp add: showStep_def Let_def)

lemma showStep_totalSteps [simp]:
  "totalSteps (fst (showStep i a qd)) = totalSteps (fst qd)"
  by (simp add: showStep_def Let_def)

lemma step_totalSteps [simp]: "totalSteps (fst (step e qd)) = totalSteps (fst qd)"
  by (cases e) (simp_all add: click_def timeout_def Let_def)

lemma step_currentStep:
  "currentStep (fst (step e qd)) =
     (if e = Tap \<and> \<not> js_ge (currentStep (fst qd)) (Num (totalSteps (fst qd) - 1))
      then js_inc (currentStep (fst qd)) else currentStep (fst qd))"
  by (cases e) (simp_all add: click_def timeout_def Let_def)

lemma exec_Nil [simp]: "exec [] qd = qd"
  by (simp add: exec_def)

lemma exec_snoc [simp]: "exec (es @ [e]) qd = step e (exec es qd)"
  by (simp add: exec_def)

lemma exec_totalSteps [simp]: "totalSteps (fst (exec es qd)) = totalSteps (fst qd)"
  by (induction es rule: rev_induct) simp_all

lemma initSuitcase_totalSteps [simp]:
  "totalSteps (fst (initSuitcase startAt d)) = int (length (steps d))"
  by (simp add: initSuitcase_def Let_def)

lemma initSuitcase_currentStep:
  "currentStep (fst (initSuitcase startAt d)) =
     js_min (js_max startAt (Num 0)) (Num (int (length (steps d)) - 1))"
  by (simp add: initSuitcase_def Let_def)

lemma step_in_range:
  assumes "currentStep (fst qd) = Num c" and "c \<le> totalSteps (fst qd) - 1"
  shows "\<exists>c'. currentStep (fst (step e qd)) = Num c' \<and> c \<le> c' \<and> c' \<le> c + 1
            \<and> c' \<le> totalSteps (fst qd) - 1"
  using assms by (auto simp: step_currentStep)

lemma exec_in_range:
  assumes "currentStep (fst qd) = Num k" and "k \<le> totalSteps (fst qd) - 1"
  shows "\<exists>c. currentStep (fst (exec es qd)) = Num c \<and> k \<le> c \<and> c \<le> totalSteps (fst qd) - 1"
proof (induction es rule: rev_induct)
  case Nil
  show ?case using assms by simp
next
  case (snoc e es)
  then obtain c where c: "currentStep (fst (exec es qd)) = Num c" "k \<le> c"
      "c \<le> totalSteps (fst qd) - 1"
    by blast
  from step_in_range [of "exec es qd" c e] c
  obtain c' where "currentStep (fst (step e (exec es qd))) = Num c'" "c \<le> c'"
      "c' \<le> totalSteps (fst qd) - 1"
    by auto
  with c show ?case by auto
qed

text \<open>
  C4. After \<open>initSuitcase\<close> with a start index \<open>k\<close> in \<open>[0, totalSteps - 1]\<close> the current
  step index is \<open>k\<close>; after every sequence of events it is a number in
  \<open>[k, totalSteps - 1]\<close>, so within \<open>[0, totalSteps - 1]\<close>; and every further event
  (a tap among them) leaves it as it is or adds one, so it never decreases and the
  only assignment that is no increment is the initial one.
\<close>

theorem C4_index_in_range_and_monotone:
  assumes "0 \<le> k" and "k < int (length (steps d))"
  shows "currentStep (fst (initSuitcase (Num k) d)) = Num k
       \<and> (\<exists>c c'. currentStep (fst (exec es (initSuitcase (Num k) d))) = Num c
             \<and> 0 \<le> c \<and> k \<le> c \<and> c \<le> int (length (steps d)) - 1
             \<and> currentStep (fst (step e (exec es (initSuitcase (Num k) d)))) = Num c'
             \<and> c \<le> c' \<and> c' \<le> c + 1 \<and> c' \<le> int (length (steps d)) - 1)"
proof -
  let ?s0 = "initSuitcase (Num k) d"
  have start: "currentStep (fst ?s0) = Num k"
    using assms by (simp add: initSuitcase_currentStep)
  have le: "k \<le> totalSteps (fst ?s0) - 1"
    using assms by simp
  from exec_in_range [OF start le, of es]
  obtain c where c: "currentStep (fst (exec es ?s0)) = Num c" "k \<le> c"
      "c \<le> int (length (steps d)) - 1"
    by auto
  from step_in_range [of "exec es ?s0" c e] c
  obtain c' where "currentStep (fst (step e (exec es ?s0))) = Num c'" "c \<le> c'"
      "c' \<le> c + 1" "c' \<le> int (length (steps d)) - 1"
    by auto
  with start c assms(1) show ?thesis by auto
qed

theorem C4_index_in_range_and_monotone_witness:
  "(0::int) \<le> 1 \<and> 1 < int (length (steps (freshDom 4)))
   \<and> currentStep (fst (initSuitcase (Num 1) (freshDom 4))) = Num 1
   \<and> (\<exists>c c'. currentStep (fst (exec [Tap, Tap] (initSuitcase (Num 1) (freshDom 4)))) = Num c
         \<and> 0 \<le> c \<and> 1 \<le> c \<and> c \<le> int (length (steps (freshDom 4))) - 1
         \<and> currentStep (fst (step Tap (exec [Tap, Tap] (initSuitcase (Num 1) (freshDom 4)))))
             = Num c'
         \<and> c \<le> c' \<and> c' \<le> c + 1 \<and> c' \<le> int (length (steps (freshDom 4))) - 1)"
proof -
  have h1: "(0::int) \<le> 1" by simp
  have h2: "1 < int (length (steps (freshDom 4)))"
    by (simp add: freshDom_def loadDom_def)
  show ?thesis
    using C4_index_in_range_and_monotone [OF h1 h2, of "[Tap, Tap]" Tap] h1 h2 by blast
qed

subsection \<open>The map step\<close>

lemma showStep_map_other:
  "index \<noteq> Num 2 \<Longrightarrow>
     mapInits (snd (showStep index a qd)) = mapInits (snd qd)
     \<and> mapInitialised (snd (showStep index a qd)) = mapInitialised (snd qd)"
  by (simp add: showStep_def Let_def)

lemma step_map_past:
  assumes "currentStep (fst qd) = Num c" and "2 \<le> c"
  shows "mapInits (snd (step e qd)) = mapInits (snd qd)
       \<and> mapInitialised (snd (step e qd)) = mapInitialised (snd qd)"
proof (cases e)
  case Tap
  have "Num (c + 1) \<noteq> Num 2" using assms(2) by simp
  then show ?thesis
    using Tap assms(1) by (simp add: click_def Let_def showStep_map_other)
next
  case TapGift
  then show ?thesis by (simp add: click_def Let_def)
next
  case Timeout
  then show ?thesis by (simp add: timeout_def Let_def)
qed

lemma exec_map_past:
  assumes "currentStep (fst qd) = Num k" and "2 \<le> k" and "k \<le> totalSteps (fst qd) - 1"
  shows "mapInits (snd (exec es qd)) = mapInits (snd qd)
       \<and> mapInitialised (snd (exec es qd)) = mapInitialised (snd qd)"
proof (induction es rule: rev_induct)
  case Nil
  show ?case by simp
next
  case (snoc e es)
  from exec_in_range [OF assms(1) assms(3), of es]
  obtain c where c: "currentStep (fst (exec es qd)) = Num c" "k \<le> c"
    by auto
  then have "2 \<le> c" using assms(2) by simp
  from step_map_past [OF c(1) this, of e] snoc show ?case by simp
qed

subsection \<open>A tap while a transition is in flight\<close>

lemma tap_in_flight:
  assumes "transitioning q" and "currentStep q = Num c" and "c < totalSteps q - 1"
  shows "step Tap (q, d) = (q\<lparr>currentStep := Num (c + 1)\<rparr>, d)"
  using assms by (simp add: click_def showStep_def Let_def)

text \<open>
  C1. The guard on \<^verbatim>\<open>transitioning\<close> stands in \<^verbatim>\<open>showStep\<close>, after the listener has
  already run \<^verbatim>\<open>currentStep++\<close>. With four steps and the start index 0: the first tap
  starts a transition (index 1); a second and a third tap while that same transition
  is in flight (its timer still pending) move the index to 2 and to 3. And when the
  timer fires after the second tap, the next tap displays step 3: step 2 was never
  displayed and the map never initialised.
\<close>

theorem C1_taps_in_flight_advance_index:
  "currentStep (fst (initSuitcase (Num 0) (freshDom 4))) = Num 0
   \<and> currentStep (fst (exec [Tap] (initSuitcase (Num 0) (freshDom 4)))) = Num 1
   \<and> transitioning (fst (exec [Tap] (initSuitcase (Num 0) (freshDom 4))))
   \<and> timers (fst (exec [Tap] (initSuitcase (Num 0) (freshDom 4)))) = 1
   \<and> currentStep (fst (exec [Tap, Tap] (initSuitcase (Num 0) (freshDom 4)))) = Num 2
   \<and> transitioning (fst (exec [Tap, Tap] (initSuitcase (Num 0) (freshDom 4))))
   \<and> timers (fst (exec [Tap, Tap] (initSuitcase (Num 0) (freshDom 4)))) = 1
   \<and> currentStep (fst (exec [Tap, Tap, Tap] (initSuitcase (Num 0) (freshDom 4)))) = Num 3
   \<and> timers (fst (exec [Tap, Tap, Tap] (initSuitcase (Num 0) (freshDom 4)))) = 1
   \<and> shown (snd (exec [Tap, Tap, Tap] (initSuitcase (Num 0) (freshDom 4)))) = [Num 0, Num 1]
   \<and> shown (snd (exec [Tap, Tap, Timeout, Tap] (initSuitcase (Num 0) (freshDom 4))))
       = [Num 0, Num 1, Num 3]
   \<and> activeSteps (snd (exec [Tap, Tap, Timeout, Tap] (initSuitcase (Num 0) (freshDom 4)))) = [3]
   \<and> mapInits (snd (exec [Tap, Tap, Timeout, Tap] (initSuitcase (Num 0) (freshDom 4)))) = 0"
  by (simp add: exec_def click_def timeout_def showStep_def initSuitcase_def freshDom_def
      loadDom_def activeSteps_def stepClasses_def initMap_def Let_def enumerate_eq_zip
      eval_nat_numeral)


subsection \<open>Which steps bear \<^verbatim>\<open>active\<close> after \<open>showStep\<close>\<close>

lemma activeSteps_enumerate:
  "map fst (filter (\<lambda>(i, c). active c)
      (enumerate n (map (\<lambda>(i, c). stepClasses idx i c) (enumerate n xs))))
   = filter (\<lambda>i. Num (int i) = idx) [n..<n + length xs]"
proof (induction xs arbitrary: n)
  case Nil
  show ?case by simp
next
  case (Cons x xs)
  have "n < n + length (x # xs)" by simp
  from upt_conv_Cons [OF this]
  have "[n..<n + length (x # xs)] = n # [Suc n..<n + length (x # xs)]" .
  moreover have "n + length (x # xs) = Suc n + length xs" by simp
  ultimately have upt: "[n..<n + length (x # xs)] = n # [Suc n..<Suc n + length xs]"
    by (simp only:)
  have act: "active (stepClasses idx n x) = (Num (int n) = idx)"
    by (simp add: stepClasses_def)
  show ?case unfolding upt using Cons [of "Suc n"] act
    by (simp del: upt_Suc)
qed

lemma steps_initMap [simp]: "steps (initMap d) = steps d"
  by (simp add: initMap_def)

lemma activeSteps_showStep:
  "\<not> (a \<and> transitioning (fst qd)) \<Longrightarrow>
     activeSteps (snd (showStep idx a qd))
       = filter (\<lambda>i. Num (int i) = idx) [0..<length (steps (snd qd))]"
  using activeSteps_enumerate [of 0 idx "steps (snd qd)"]
  by (auto simp: showStep_def Let_def activeSteps_def)

lemma showStep_guarded:
  "a \<and> transitioning (fst qd) \<Longrightarrow> showStep idx a qd = qd"
  by (simp add: showStep_def Let_def)

lemma filter_eq_upt: "k < n \<Longrightarrow> filter (\<lambda>i. i = k) [0..<n] = [k]"
  by (induction n) (auto simp: less_Suc_eq)

lemma parseInt10_2: "parseInt10 ''2'' = Num 2"
  by (simp add: parseInt10_def isWhiteSpace_def isDigit_def digitValue_def)

lemma parseInt10_abc: "parseInt10 ''abc'' = NaN"
  by (simp add: parseInt10_def isWhiteSpace_def isDigit_def digitValue_def)

subsection \<open>A start index that is no number\<close>

lemma initSuitcase_clamps_numbers:
  assumes "steps d \<noteq> []"
  shows "\<exists>c. currentStep (fst (initSuitcase (Num k) d)) = Num c
           \<and> 0 \<le> c \<and> c \<le> int (length (steps d)) - 1"
proof -
  have "0 < length (steps d)" using assms by simp
  then show ?thesis
    by (simp add: initSuitcase_currentStep)
qed

lemma step_NaN:
  assumes "currentStep (fst qd) = NaN" and "activeSteps (snd qd) = []"
  shows "currentStep (fst (step e qd)) = NaN \<and> activeSteps (snd (step e qd)) = []"
proof (cases e)
  case Tap
  let ?q' = "(fst qd)\<lparr>currentStep := NaN\<rparr>"
  have st: "step Tap qd = showStep NaN True (?q', snd qd)"
    using assms(1) by (simp add: click_def Let_def)
  show ?thesis
  proof (cases "transitioning (fst qd)")
    case True
    then have "showStep NaN True (?q', snd qd) = (?q', snd qd)"
      by (simp add: showStep_guarded)
    with st Tap assms show ?thesis by simp
  next
    case False
    then have "activeSteps (snd (showStep NaN True (?q', snd qd))) = []"
      by (simp add: activeSteps_showStep)
    with st Tap show ?thesis by simp
  qed
next
  case TapGift
  with assms show ?thesis by (simp add: click_def Let_def)
next
  case Timeout
  with assms show ?thesis by (simp add: timeout_def Let_def)
qed

lemma exec_NaN:
  assumes "currentStep (fst qd) = NaN" and "activeSteps (snd qd) = []"
  shows "currentStep (fst (exec es qd)) = NaN \<and> activeSteps (snd (exec es qd)) = []"
proof (induction es rule: rev_induct)
  case Nil
  show ?case using assms by simp
next
  case (snoc e es)
  then show ?case using step_NaN [of "exec es qd" e] by simp
qed

text \<open>
  C3. For the query \<^verbatim>\<open>?screen=suitcase&step=abc\<close> the code calls
  \<^verbatim>\<open>initSuitcase(parseInt('abc', 10))\<close>, that is \<^verbatim>\<open>initSuitcase(NaN)\<close>.
  \<^verbatim>\<open>Math.min(Math.max(NaN, 0), totalSteps - 1)\<close> is \<open>NaN\<close>, not an index in
  \<open>[0, totalSteps - 1]\<close>: on every page \<open>d\<close> no step bears \<^verbatim>\<open>active\<close> after
  \<open>initSuitcase\<close>, and after every sequence of events the index is still \<open>NaN\<close> and
  still no step is active.
\<close>

theorem C3_non_numeric_step_is_not_clamped:
  "parseInt10 ''abc'' = NaN
   \<and> map currentStep (listeners (story
        (init (Some ''suitcase'') (Some ''abc'') (appLoad False False False False (freshDom 4)))))
       = [NaN]
   \<and> activeSteps (pdom (story
        (init (Some ''suitcase'') (Some ''abc'') (appLoad False False False False (freshDom 4)))))
       = []
   \<and> currentStep (fst (exec es (initSuitcase (parseInt10 ''abc'') d))) = NaN
   \<and> activeSteps (snd (exec es (initSuitcase (parseInt10 ''abc'') d))) = []"
proof -
  have cur: "currentStep (fst (initSuitcase NaN d)) = NaN"
    by (simp add: initSuitcase_currentStep)
  have act: "activeSteps (snd (initSuitcase NaN d)) = []"
    by (simp add: initSuitcase_def Let_def activeSteps_showStep)
  have app: "story (init (Some ''suitcase'') (Some ''abc'') (appLoad False False False False (freshDom 4)))
      = initSuitcasePage NaN \<lparr>pdom = freshDom 4, listeners = []\<rparr>"
    by (simp add: init_def jumpTo_def appLoad_def parseInt10_abc Let_def)
  have "map currentStep (listeners (initSuitcasePage NaN \<lparr>pdom = freshDom 4, listeners = []\<rparr>)) = [NaN]"
    by (simp add: initSuitcasePage_def Let_def initSuitcase_currentStep)
  moreover have "activeSteps (pdom (initSuitcasePage NaN \<lparr>pdom = freshDom 4, listeners = []\<rparr>)) = []"
    by (simp add: initSuitcasePage_def Let_def initSuitcase_def activeSteps_showStep)
  ultimately show ?thesis
    using exec_NaN [OF cur act, of es] app by (simp add: parseInt10_abc)
qed

subsection \<open>The map is initialised once\<close>

lemma showStep_map_once:
  assumes "mapInits (snd qd) = (if Num 2 \<in> set (shown (snd qd)) then 1 else 0)"
    and "mapInitialised (snd qd) = (Num 2 \<in> set (shown (snd qd)))"
  shows "mapInits (snd (showStep i a qd)) = (if Num 2 \<in> set (shown (snd (showStep i a qd))) then 1 else 0)
       \<and> mapInitialised (snd (showStep i a qd)) = (Num 2 \<in> set (shown (snd (showStep i a qd))))"
  using assms by (auto simp: showStep_def Let_def initMap_def)

lemma click_map_once:
  assumes "mapInits d = (if Num 2 \<in> set (shown d) then 1 else 0)"
    and "mapInitialised d = (Num 2 \<in> set (shown d))"
  shows "mapInits (snd (click g (q, d))) = (if Num 2 \<in> set (shown (snd (click g (q, d)))) then 1 else 0)
       \<and> mapInitialised (snd (click g (q, d))) = (Num 2 \<in> set (shown (snd (click g (q, d)))))"
proof -
  let ?q' = "q\<lparr>currentStep := js_inc (currentStep q)\<rparr>"
  have "click g (q, d) = (q, d) \<or> click g (q, d) = showStep (js_inc (currentStep q)) True (?q', d)"
    by (simp add: click_def Let_def)
  then show ?thesis
    using assms showStep_map_once [of "(?q', d)" "js_inc (currentStep q)" True] by auto
qed

lemma clickAll_map_once:
  assumes "mapInits d = (if Num 2 \<in> set (shown d) then 1 else 0)"
    and "mapInitialised d = (Num 2 \<in> set (shown d))"
  shows "mapInits (snd (clickAll g qs d)) = (if Num 2 \<in> set (shown (snd (clickAll g qs d))) then 1 else 0)
       \<and> mapInitialised (snd (clickAll g qs d)) = (Num 2 \<in> set (shown (snd (clickAll g qs d))))"
  using assms
proof (induction qs arbitrary: d)
  case Nil
  then show ?case by simp
next
  case (Cons q qs)
  from click_map_once [OF Cons.prems, of g q]
  have "mapInits (snd (click g (q, d))) = (if Num 2 \<in> set (shown (snd (click g (q, d)))) then 1 else 0)"
    and "mapInitialised (snd (click g (q, d))) = (Num 2 \<in> set (shown (snd (click g (q, d)))))"
    by simp_all
  from Cons.IH [OF this] show ?case by (simp add: Let_def)
qed

lemma pageStep_map_once:
  assumes "mapInits (pdom p) = (if Num 2 \<in> set (shown (pdom p)) then 1 else 0)"
    and "mapInitialised (pdom p) = (Num 2 \<in> set (shown (pdom p)))"
  shows "mapInits (pdom (pageStep e p)) = (if Num 2 \<in> set (shown (pdom (pageStep e p))) then 1 else 0)
       \<and> mapInitialised (pdom (pageStep e p)) = (Num 2 \<in> set (shown (pdom (pageStep e p))))"
proof (cases e)
  case (PInit startAt)
  let ?total = "int (length (steps (pdom p)))"
  let ?cur = "js_min (js_max startAt (Num 0)) (Num (?total - 1))"
  let ?q = "\<lparr>totalSteps = ?total, currentStep = ?cur, transitioning = False, timers = 0\<rparr>"
  have "pdom (pageStep e p) = snd (showStep ?cur False (?q, pdom p))"
    using PInit by (simp add: initSuitcasePage_def initSuitcase_def Let_def)
  then show ?thesis
    using showStep_map_once [of "(?q, pdom p)" ?cur False] assms by simp
next
  case PTap
  then show ?thesis
    using clickAll_map_once [OF assms, of False "listeners p"] by (simp add: pageClick_def Let_def)
next
  case PTapGift
  then show ?thesis
    using clickAll_map_once [OF assms, of True "listeners p"] by (simp add: pageClick_def Let_def)
next
  case (PTimeout i)
  then show ?thesis
    using assms by (simp add: pageTimeout_def timeout_def Let_def)
qed

lemma pageExec_Nil [simp]: "pageExec [] p = p"
  by (simp add: pageExec_def)

lemma pageExec_snoc [simp]: "pageExec (es @ [e]) p = pageStep e (pageExec es p)"
  by (simp add: pageExec_def)

lemma initMap_initialised [simp]: "mapInitialised (initMap d)"
  by (simp add: initMap_def)

lemma showStep_keeps_initialised:
  "mapInitialised (snd qd) \<Longrightarrow> mapInitialised (snd (showStep i a qd))"
  by (simp add: showStep_def Let_def)

lemma showStep_2_initialises:
  "\<not> (a \<and> transitioning (fst qd)) \<Longrightarrow> mapInitialised (snd (showStep (Num 2) a qd))"
  by (auto simp: showStep_def Let_def)

lemma click_keeps_initialised:
  "mapInitialised d \<Longrightarrow> mapInitialised (snd (click g (q, d)))"
  by (simp add: click_def Let_def showStep_keeps_initialised)

lemma click_initialises:
  assumes "currentStep q = Num 1" and "\<not> transitioning q" and "2 < totalSteps q"
  shows "mapInitialised (snd (click False (q, d)))"
  using assms by (simp add: click_def Let_def showStep_2_initialises)

lemma clickAll_keeps_initialised:
  "mapInitialised d \<Longrightarrow> mapInitialised (snd (clickAll g qs d))"
  by (induction qs arbitrary: d) (simp_all add: Let_def click_keeps_initialised)

lemma clickAll_initialises:
  assumes "\<exists>q \<in> set qs. currentStep q = Num 1 \<and> \<not> transitioning q \<and> 2 < totalSteps q"
  shows "mapInitialised (snd (clickAll False qs d))"
  using assms
proof (induction qs arbitrary: d)
  case Nil
  then show ?case by simp
next
  case (Cons q qs)
  show ?case
  proof (cases "currentStep q = Num 1 \<and> \<not> transitioning q \<and> 2 < totalSteps q")
    case True
    then have "mapInitialised (snd (click False (q, d)))"
      by (simp add: click_initialises)
    then show ?thesis
      by (simp add: Let_def clickAll_keeps_initialised)
  next
    case False
    with Cons.prems have "\<exists>q \<in> set qs. currentStep q = Num 1 \<and> \<not> transitioning q \<and> 2 < totalSteps q"
      by auto
    from Cons.IH [OF this] show ?thesis
      by (simp add: Let_def)
  qed
qed

lemma pageStep_keeps_initialised:
  "mapInitialised (pdom p) \<Longrightarrow> mapInitialised (pdom (pageStep e p))"
  by (cases e)
    (simp_all add: initSuitcasePage_def initSuitcase_def pageClick_def pageTimeout_def
      timeout_def Let_def showStep_keeps_initialised clickAll_keeps_initialised)

text \<open>While step 2 bears \<^verbatim>\<open>active\<close> after a \<open>showStep\<close>, the map is initialised.\<close>

lemma showStep_active_2:
  assumes "2 \<in> set (activeSteps (snd qd)) \<longrightarrow> mapInitialised (snd qd)"
  shows "2 \<in> set (activeSteps (snd (showStep idx a qd)))
           \<longrightarrow> mapInitialised (snd (showStep idx a qd))"
proof (cases "a \<and> transitioning (fst qd)")
  case True
  then have "showStep idx a qd = qd"
    by (simp add: showStep_guarded)
  with assms show ?thesis by simp
next
  case False
  show ?thesis
  proof
    assume "2 \<in> set (activeSteps (snd (showStep idx a qd)))"
    then have "Num (int 2) = idx"
      by (simp add: activeSteps_showStep [OF False])
    then have "idx = Num 2" by simp
    then show "mapInitialised (snd (showStep idx a qd))"
      using showStep_2_initialises [OF False] by simp
  qed
qed

lemma showStep_unguarded_active_2:
  "2 \<in> set (activeSteps (snd (showStep idx False qd)))
     \<longrightarrow> mapInitialised (snd (showStep idx False qd))"
proof
  assume "2 \<in> set (activeSteps (snd (showStep idx False qd)))"
  then have "Num (int 2) = idx"
    by (simp add: activeSteps_showStep)
  then have "idx = Num 2" by simp
  then show "mapInitialised (snd (showStep idx False qd))"
    using showStep_2_initialises [of False qd] by simp
qed

lemma click_active_2:
  assumes "2 \<in> set (activeSteps d) \<longrightarrow> mapInitialised d"
  shows "2 \<in> set (activeSteps (snd (click g (q, d)))) \<longrightarrow> mapInitialised (snd (click g (q, d)))"
proof -
  let ?q' = "q\<lparr>currentStep := js_inc (currentStep q)\<rparr>"
  have "click g (q, d) = (q, d) \<or> click g (q, d) = showStep (js_inc (currentStep q)) True (?q', d)"
    by (simp add: click_def Let_def)
  then show ?thesis
    using assms showStep_active_2 [of "(?q', d)" "js_inc (currentStep q)" True] by auto
qed

lemma clickAll_active_2:
  assumes "2 \<in> set (activeSteps d) \<longrightarrow> mapInitialised d"
  shows "2 \<in> set (activeSteps (snd (clickAll g qs d))) \<longrightarrow> mapInitialised (snd (clickAll g qs d))"
  using assms
proof (induction qs arbitrary: d)
  case Nil
  then show ?case by simp
next
  case (Cons q qs)
  from Cons.IH [OF click_active_2 [OF Cons.prems, of g q]] show ?case
    by (simp add: Let_def)
qed

lemma length_clickAll [simp]: "length (fst (clickAll g qs d)) = length qs"
  by (induction qs arbitrary: d) (simp_all add: Let_def)

lemma pageStep_active_2:
  assumes "listeners p \<noteq> [] \<longrightarrow> (2 \<in> set (activeSteps (pdom p)) \<longrightarrow> mapInitialised (pdom p))"
  shows "listeners (pageStep e p) \<noteq> []
           \<longrightarrow> (2 \<in> set (activeSteps (pdom (pageStep e p))) \<longrightarrow> mapInitialised (pdom (pageStep e p)))"
proof (cases e)
  case (PInit startAt)
  then show ?thesis
    using showStep_unguarded_active_2
    by (simp add: initSuitcasePage_def initSuitcase_def Let_def)
next
  case PTap
  have "length (listeners (pageStep e p)) = length (listeners p)"
    using PTap by (simp add: pageClick_def Let_def)
  then have "listeners (pageStep e p) \<noteq> [] \<longrightarrow> listeners p \<noteq> []"
    by auto
  with assms PTap show ?thesis
    using clickAll_active_2 [of "pdom p" False "listeners p"]
    by (auto simp: pageClick_def Let_def)
next
  case PTapGift
  have "length (listeners (pageStep e p)) = length (listeners p)"
    using PTapGift by (simp add: pageClick_def Let_def)
  then have "listeners (pageStep e p) \<noteq> [] \<longrightarrow> listeners p \<noteq> []"
    by auto
  with assms PTapGift show ?thesis
    using clickAll_active_2 [of "pdom p" True "listeners p"]
    by (auto simp: pageClick_def Let_def)
next
  case (PTimeout i)
  have "length (listeners (pageStep e p)) = length (listeners p)"
    using PTimeout by (simp add: pageTimeout_def Let_def)
  then have "listeners (pageStep e p) \<noteq> [] \<longrightarrow> listeners p \<noteq> []"
    by auto
  moreover have "pdom (pageStep e p) = pdom p"
    using PTimeout by (simp add: pageTimeout_def timeout_def Let_def)
  ultimately show ?thesis
    using assms by simp
qed

lemma pageExec_active_2:
  "listeners (pageExec es \<lparr>pdom = d, listeners = []\<rparr>) \<noteq> []
     \<longrightarrow> (2 \<in> set (activeSteps (pdom (pageExec es \<lparr>pdom = d, listeners = []\<rparr>)))
          \<longrightarrow> mapInitialised (pdom (pageExec es \<lparr>pdom = d, listeners = []\<rparr>)))"
proof (induction es rule: rev_induct)
  case Nil
  show ?case by simp
next
  case (snoc e es)
  from pageStep_active_2 [OF snoc, of e] show ?case by simp
qed

lemma pageExec_map_once:
  "mapInits (pdom (pageExec es \<lparr>pdom = loadDom ss ds h, listeners = []\<rparr>))
     = (if Num 2 \<in> set (shown (pdom (pageExec es \<lparr>pdom = loadDom ss ds h, listeners = []\<rparr>)))
        then 1 else 0)
   \<and> mapInitialised (pdom (pageExec es \<lparr>pdom = loadDom ss ds h, listeners = []\<rparr>))
     = (Num 2 \<in> set (shown (pdom (pageExec es \<lparr>pdom = loadDom ss ds h, listeners = []\<rparr>))))"
proof (induction es rule: rev_induct)
  case Nil
  show ?case by (simp add: loadDom_def)
next
  case (snoc e es)
  then show ?case
    using pageStep_map_once [of "pageExec es \<lparr>pdom = loadDom ss ds h, listeners = []\<rparr>" e]
    by simp
qed

text \<open>
  C5. Take the page after any sequence of calls of \<open>initSuitcase\<close> (with any start
  index), taps and timers since it was loaded. The map has been initialised at most
  once, and exactly once when \<^verbatim>\<open>mapInitialised\<close> holds, which is the case exactly when
  step 2 was displayed. Every way into step 2 leaves it initialised exactly once: a
  call of \<open>initSuitcase\<close> whose clamped start index is 2; a tap when some closure is at
  step 1 with no transition in flight and has at least three steps;
  and, once \<open>initSuitcase\<close> has run, any state in which step 2 bears \<^verbatim>\<open>active\<close>. And once
  it is initialised, no further event initialises it again.
\<close>

theorem C5_map_initialised_once:
  "mapInits (pdom (pageExec es \<lparr>pdom = loadDom ss ds h, listeners = []\<rparr>))
     = (if Num 2 \<in> set (shown (pdom (pageExec es \<lparr>pdom = loadDom ss ds h, listeners = []\<rparr>)))
        then 1 else 0)
   \<and> mapInitialised (pdom (pageExec es \<lparr>pdom = loadDom ss ds h, listeners = []\<rparr>))
     = (Num 2 \<in> set (shown (pdom (pageExec es \<lparr>pdom = loadDom ss ds h, listeners = []\<rparr>))))
   \<and> mapInits (pdom (pageExec es \<lparr>pdom = loadDom ss ds h, listeners = []\<rparr>)) \<le> 1
   \<and> mapInits (pdom (pageExec es \<lparr>pdom = loadDom ss ds h, listeners = []\<rparr>))
     = (if mapInitialised (pdom (pageExec es \<lparr>pdom = loadDom ss ds h, listeners = []\<rparr>))
        then 1 else 0)
   \<and> (js_min (js_max startAt (Num 0))
          (Num (int (length (steps (pdom (pageExec es \<lparr>pdom = loadDom ss ds h, listeners = []\<rparr>)))) - 1))
        = Num 2
      \<longrightarrow> mapInits (pdom (pageStep (PInit startAt)
                (pageExec es \<lparr>pdom = loadDom ss ds h, listeners = []\<rparr>))) = 1)
   \<and> ((\<exists>q \<in> set (listeners (pageExec es \<lparr>pdom = loadDom ss ds h, listeners = []\<rparr>)).
          currentStep q = Num 1 \<and> \<not> transitioning q \<and> 2 < totalSteps q)
      \<longrightarrow> mapInits (pdom (pageStep PTap
                (pageExec es \<lparr>pdom = loadDom ss ds h, listeners = []\<rparr>))) = 1)
   \<and> (listeners (pageExec es \<lparr>pdom = loadDom ss ds h, listeners = []\<rparr>) \<noteq> []
        \<and> 2 \<in> set (activeSteps (pdom (pageExec es \<lparr>pdom = loadDom ss ds h, listeners = []\<rparr>)))
      \<longrightarrow> mapInits (pdom (pageExec es \<lparr>pdom = loadDom ss ds h, listeners = []\<rparr>)) = 1)
   \<and> (mapInits (pdom (pageExec es \<lparr>pdom = loadDom ss ds h, listeners = []\<rparr>)) = 1
      \<longrightarrow> mapInits (pdom (pageStep e
                (pageExec es \<lparr>pdom = loadDom ss ds h, listeners = []\<rparr>))) = 1)"
proof -
  let ?p = "pageExec es \<lparr>pdom = loadDom ss ds h, listeners = []\<rparr>"
  have once: "mapInits (pdom ?p) = (if Num 2 \<in> set (shown (pdom ?p)) then 1 else 0)"
    and flag: "mapInitialised (pdom ?p) = (Num 2 \<in> set (shown (pdom ?p)))"
    using pageExec_map_once [of es ss ds h] by simp_all
  have after: "mapInits (pdom (pageStep x ?p)) = (if mapInitialised (pdom (pageStep x ?p)) then 1 else 0)"
    for x
    using pageStep_map_once [OF once flag, of x] by simp
  have count: "mapInits (pdom ?p) = (if mapInitialised (pdom ?p) then 1 else 0)"
    using once flag by simp
  then have le: "mapInits (pdom ?p) \<le> 1"
    by simp
  have by_init: "mapInits (pdom (pageStep (PInit startAt) ?p)) = 1"
    if "js_min (js_max startAt (Num 0)) (Num (int (length (steps (pdom ?p))) - 1)) = Num 2"
  proof -
    have "mapInitialised (pdom (pageStep (PInit startAt) ?p))"
      using that showStep_2_initialises [of False]
      by (simp add: initSuitcasePage_def initSuitcase_def Let_def)
    with after [of "PInit startAt"] show ?thesis by simp
  qed
  have by_tap: "mapInits (pdom (pageStep PTap ?p)) = 1"
    if "\<exists>q \<in> set (listeners ?p). currentStep q = Num 1 \<and> \<not> transitioning q \<and> 2 < totalSteps q"
  proof -
    have "mapInitialised (pdom (pageStep PTap ?p))"
      using clickAll_initialises [OF that, of "pdom ?p"] by (simp add: pageClick_def Let_def)
    with after [of PTap] show ?thesis by simp
  qed
  have shown_2: "mapInits (pdom ?p) = 1"
    if "listeners ?p \<noteq> [] \<and> 2 \<in> set (activeSteps (pdom ?p))"
    using that pageExec_active_2 [of es "loadDom ss ds h"] count by simp
  have stays: "mapInits (pdom (pageStep e ?p)) = 1" if "mapInits (pdom ?p) = 1"
  proof -
    have "mapInitialised (pdom ?p)"
    proof (rule ccontr)
      assume "\<not> mapInitialised (pdom ?p)"
      then have "(if mapInitialised (pdom ?p) then 1 else 0) = (0::nat)"
        by simp
      then have "mapInits (pdom ?p) = 0"
        by (simp only: count)
      with that show False by simp
    qed
    then have "mapInitialised (pdom (pageStep e ?p))"
      by (rule pageStep_keeps_initialised)
    with after [of e] show ?thesis by simp
  qed
  from once flag le count by_init by_tap shown_2 stays show ?thesis
    by (intro conjI impI) assumption+
qed

theorem C5_map_initialised_once_witness:
  "js_min (js_max (Num 2) (Num 0))
      (Num (int (length (steps (pdom (pageExec [PInit (Num 0), PTap, PTimeout 0]
         \<lparr>pdom = loadDom (replicate 4 \<lparr>active = False, exited = False\<rparr>) (replicate 4 False) [],
           listeners = []\<rparr>)))) - 1))
     = Num 2
   \<and> (\<exists>q \<in> set (listeners (pageExec [PInit (Num 0), PTap, PTimeout 0]
         \<lparr>pdom = loadDom (replicate 4 \<lparr>active = False, exited = False\<rparr>) (replicate 4 False) [],
           listeners = []\<rparr>)).
        currentStep q = Num 1 \<and> \<not> transitioning q \<and> 2 < totalSteps q)
   \<and> mapInits (pdom (pageExec [PInit (Num 0), PTap, PTimeout 0]
         \<lparr>pdom = loadDom (replicate 4 \<lparr>active = False, exited = False\<rparr>) (replicate 4 False) [],
           listeners = []\<rparr>)) = 0
   \<and> mapInits (pdom (pageStep (PInit (Num 2)) (pageExec [PInit (Num 0), PTap, PTimeout 0]
         \<lparr>pdom = loadDom (replicate 4 \<lparr>active = False, exited = False\<rparr>) (replicate 4 False) [],
           listeners = []\<rparr>))) = 1
   \<and> mapInits (pdom (pageStep PTap (pageExec [PInit (Num 0), PTap, PTimeout 0]
         \<lparr>pdom = loadDom (replicate 4 \<lparr>active = False, exited = False\<rparr>) (replicate 4 False) [],
           listeners = []\<rparr>))) = 1
   \<and> listeners (pageExec [PInit (Num 0), PTap, PTimeout 0, PTap]
         \<lparr>pdom = loadDom (replicate 4 \<lparr>active = False, exited = False\<rparr>) (replicate 4 False) [],
           listeners = []\<rparr>) \<noteq> []
   \<and> 2 \<in> set (activeSteps (pdom (pageExec [PInit (Num 0), PTap, PTimeout 0, PTap]
         \<lparr>pdom = loadDom (replicate 4 \<lparr>active = False, exited = False\<rparr>) (replicate 4 False) [],
           listeners = []\<rparr>)))
   \<and> mapInits (pdom (pageExec [PInit (Num 0), PTap, PTimeout 0, PTap]
         \<lparr>pdom = loadDom (replicate 4 \<lparr>active = False, exited = False\<rparr>) (replicate 4 False) [],
           listeners = []\<rparr>)) = 1
   \<and> mapInits (pdom (pageStep (PInit (Num 2)) (pageExec [PInit (Num 0), PTap, PTimeout 0, PTap]
         \<lparr>pdom = loadDom (replicate 4 \<lparr>active = False, exited = False\<rparr>) (replicate 4 False) [],
           listeners = []\<rparr>))) = 1"
proof -
  let ?load = "\<lparr>pdom = loadDom (replicate 4 \<lparr>active = False, exited = False\<rparr>) (replicate 4 False) [],
                 listeners = []\<rparr>"
  note defs = pageExec_def initSuitcasePage_def initSuitcase_def showStep_def stepClasses_def
    initMap_def pageClick_def pageTimeout_def click_def timeout_def loadDom_def activeSteps_def
    Let_def enumerate_eq_zip eval_nat_numeral
  have h1: "js_min (js_max (Num 2) (Num 0))
      (Num (int (length (steps (pdom (pageExec [PInit (Num 0), PTap, PTimeout 0] ?load)))) - 1)) = Num 2"
    by (simp add: defs)
  have h2: "\<exists>q \<in> set (listeners (pageExec [PInit (Num 0), PTap, PTimeout 0] ?load)).
        currentStep q = Num 1 \<and> \<not> transitioning q \<and> 2 < totalSteps q"
    by (simp add: defs)
  have h3: "listeners (pageExec [PInit (Num 0), PTap, PTimeout 0, PTap] ?load) \<noteq> []
      \<and> 2 \<in> set (activeSteps (pdom (pageExec [PInit (Num 0), PTap, PTimeout 0, PTap] ?load)))"
    by (simp add: defs)
  have z: "mapInits (pdom (pageExec [PInit (Num 0), PTap, PTimeout 0] ?load)) = 0"
    by (simp add: defs)
  note a = C5_map_initialised_once [of "[PInit (Num 0), PTap, PTimeout 0]"
      "replicate 4 \<lparr>active = False, exited = False\<rparr>" "replicate 4 False" "[]" "Num 2"]
  note b = C5_map_initialised_once [of "[PInit (Num 0), PTap, PTimeout 0, PTap]"
      "replicate 4 \<lparr>active = False, exited = False\<rparr>" "replicate 4 False" "[]" _ "PInit (Num 2)"]
  note a_init = a [THEN conjunct2, THEN conjunct2, THEN conjunct2, THEN conjunct2, THEN conjunct1]
  note a_tap = a [THEN conjunct2, THEN conjunct2, THEN conjunct2, THEN conjunct2, THEN conjunct2,
      THEN conjunct1]
  note b_shown = b [THEN conjunct2, THEN conjunct2, THEN conjunct2, THEN conjunct2, THEN conjunct2,
      THEN conjunct2, THEN conjunct1]
  note b_stays = b [THEN conjunct2, THEN conjunct2, THEN conjunct2, THEN conjunct2, THEN conjunct2,
      THEN conjunct2, THEN conjunct2]
  have c1: "mapInits (pdom (pageStep (PInit (Num 2))
      (pageExec [PInit (Num 0), PTap, PTimeout 0] ?load))) = 1"
    by (rule a_init [THEN mp, OF h1])
  have c2: "mapInits (pdom (pageStep PTap
      (pageExec [PInit (Num 0), PTap, PTimeout 0] ?load))) = 1"
    by (rule a_tap [THEN mp, OF h2])
  have c3: "mapInits (pdom (pageExec [PInit (Num 0), PTap, PTimeout 0, PTap] ?load)) = 1"
    by (rule b_shown [THEN mp, OF h3])
  have c4: "mapInits (pdom (pageStep (PInit (Num 2))
      (pageExec [PInit (Num 0), PTap, PTimeout 0, PTap] ?load))) = 1"
    by (rule b_stays [THEN mp, OF c3])
  from h1 h2 h3 z c1 c2 c3 c4 show ?thesis
    by (intro conjI) (assumption | erule conjunct1 | erule conjunct2)+
qed

section \<open>Properties of the flow controller\<close>

lemma showScreen_keys [simp]: "map fst (showScreen name scr) = map fst scr"
  by (induction scr) (auto simp: showScreen_def)

lemma showScreen_active:
  "map fst (filter snd (showScreen name scr)) = filter (\<lambda>k. k = name) (map fst scr)"
  by (induction scr) (auto simp: showScreen_def split: if_splits)

lemma filter_screenKeys:
  "filter (\<lambda>k. k = name) screenKeys = (if name \<in> set screenKeys then [name] else [])"
  by (auto simp: screenKeys_def)

lemma showScreen_one:
  assumes "map fst scr = screenKeys"
  shows "map fst (filter snd (showScreen name scr)) = (if name \<in> set screenKeys then [name] else [])"
  using assms by (simp only: showScreen_active filter_screenKeys)

lemma showScreen_at_most_one:
  assumes "map fst scr = screenKeys"
  shows "length (filter snd (showScreen name scr)) \<le> 1"
proof -
  have "length (filter snd (showScreen name scr))
      = length (map fst (filter snd (showScreen name scr)))"
    by simp
  also have "\<dots> \<le> 1"
    unfolding showScreen_one [OF assms] by simp
  finally show ?thesis .
qed

lemma startFlow_one:
  assumes "map fst (screens a) = screenKeys"
  shows "map fst (screens (startFlow a)) = screenKeys
       \<and> length (activeScreens (startFlow a)) \<le> 1"
  using assms showScreen_at_most_one [OF assms, of "''progress''"]
  by (simp add: startFlow_def activeScreens_def)

lemma jumpTo_one:
  assumes "map fst (screens a) = screenKeys"
  shows "map fst (screens (jumpTo name st a)) = screenKeys
       \<and> length (activeScreens (jumpTo name st a)) \<le> 1"
proof -
  let ?a1 = "a\<lparr>screens := showScreen name (screens a)\<rparr>"
  have k1: "map fst (screens ?a1) = screenKeys"
    using assms by simp
  have one: "length (filter snd (showScreen name (screens a))) \<le> 1"
    by (rule showScreen_at_most_one [OF assms])
  show ?thesis
    using startFlow_one [OF k1] one assms
    by (auto simp: jumpTo_def Let_def activeScreens_def)
qed

lemma init_one:
  assumes "map fst (screens a) = screenKeys"
  shows "map fst (screens (init skipTo st a)) = screenKeys
       \<and> length (activeScreens (init skipTo st a)) \<le> 1"
  using startFlow_one [OF assms] jumpTo_one [OF assms]
  by (simp add: init_def split: option.split)

lemma appStep_one:
  assumes "map fst (screens a) = screenKeys" and "length (activeScreens a) \<le> 1"
  shows "map fst (screens (appStep e a)) = screenKeys
       \<and> length (activeScreens (appStep e a)) \<le> 1"
proof (cases e)
  case ClickNextSteps
  then show ?thesis
    using assms(1) showScreen_at_most_one [OF assms(1), of "''suitcase''"]
    by (simp add: activeScreens_def)
next
  case ClickShowGift
  then show ?thesis
    using assms(1) showScreen_at_most_one [OF assms(1), of "''model''"]
    by (simp add: activeScreens_def)
next
  case TapStory
  then show ?thesis using assms by (simp add: activeScreens_def)
next
  case (StoryTimer i)
  then show ?thesis using assms by (simp add: activeScreens_def)
next
  case ProgressDone
  then show ?thesis
    using assms showScreen_at_most_one [OF assms(1), of "''error''"]
    by (simp add: progressDone_def activeScreens_def)
qed

lemma appExec_Nil [simp]: "appExec [] a = a"
  by (simp add: appExec_def)

lemma appExec_snoc [simp]: "appExec (es @ [e]) a = appStep e (appExec es a)"
  by (simp add: appExec_def)

lemma appExec_one:
  assumes "map fst (screens a) = screenKeys" and "length (activeScreens a) \<le> 1"
  shows "map fst (screens (appExec es a)) = screenKeys
       \<and> length (activeScreens (appExec es a)) \<le> 1"
proof (induction es rule: rev_induct)
  case Nil
  show ?case using assms by simp
next
  case (snoc e es)
  then show ?case using appStep_one [of "appExec es a" e] by simp
qed

lemma appLoad_keys [simp]: "map fst (screens (appLoad p e s m d)) = screenKeys"
  by (simp add: appLoad_def screenKeys_def)

text \<open>
  C8. Whatever classes the screens bear in the document, after \<open>init\<close> (with any query
  parameters) and after every further sequence of events at most one screen bears
  \<^verbatim>\<open>active\<close>; in every such state \<open>showScreen name\<close> leaves exactly the screen \<open>name\<close>
  active (none when \<open>name\<close> is no key of \<^verbatim>\<open>screens\<close>); and the events of the story
  sequencer (a tap, a transition timer) leave the screens as they are.
\<close>

theorem C8_at_most_one_active_screen:
  "length (activeScreens (appExec es (init skipTo suitcaseStep (appLoad p e s m d)))) \<le> 1
   \<and> map fst (filter snd
        (showScreen name (screens (appExec es (init skipTo suitcaseStep (appLoad p e s m d))))))
       = (if name \<in> set screenKeys then [name] else [])
   \<and> screens (appStep TapStory a) = screens a
   \<and> screens (appStep (StoryTimer i) a) = screens a"
proof -
  let ?start = "init skipTo suitcaseStep (appLoad p e s m d)"
  have "map fst (screens ?start) = screenKeys \<and> length (activeScreens ?start) \<le> 1"
    by (rule init_one) simp
  then have inv: "map fst (screens (appExec es ?start)) = screenKeys
      \<and> length (activeScreens (appExec es ?start)) \<le> 1"
    using appExec_one [of ?start es] by blast
  then have "map fst (filter snd (showScreen name (screens (appExec es ?start))))
      = (if name \<in> set screenKeys then [name] else [])"
    using showScreen_one [of "screens (appExec es ?start)" name] by blast
  with inv show ?thesis by simp
qed

text \<open>
  C2, as the code has it. The story screen is registered under the key
  \<^verbatim>\<open>suitcase\<close>. For the query \<^verbatim>\<open>screen=suitcase&step=2\<close> on a document with at least three
  story steps, \<open>init\<close> leaves exactly the screen \<^verbatim>\<open>suitcase\<close> active, creates one
  sequencer with the current step 2, step 2 is the one active step, the map is
  initialised (once), and \<^verbatim>\<open>startFlow\<close> was not called.
\<close>

theorem C2_suitcase_deep_link:
  assumes "3 \<le> length ss"
  shows "activeScreens (init (Some ''suitcase'') (Some ''2'') (appLoad p e s m (loadDom ss ds h)))
           = [''suitcase'']
       \<and> map currentStep (listeners (story
            (init (Some ''suitcase'') (Some ''2'') (appLoad p e s m (loadDom ss ds h))))) = [Num 2]
       \<and> activeSteps (pdom (story
            (init (Some ''suitcase'') (Some ''2'') (appLoad p e s m (loadDom ss ds h))))) = [2]
       \<and> mapInitialised (pdom (story
            (init (Some ''suitcase'') (Some ''2'') (appLoad p e s m (loadDom ss ds h)))))
       \<and> mapInits (pdom (story
            (init (Some ''suitcase'') (Some ''2'') (appLoad p e s m (loadDom ss ds h))))) = 1
       \<and> flowsStarted (init (Some ''suitcase'') (Some ''2'') (appLoad p e s m (loadDom ss ds h))) = 0"
proof -
  let ?load = "appLoad p e s m (loadDom ss ds h)"
  let ?app = "init (Some ''suitcase'') (Some ''2'') ?load"
  let ?d = "loadDom ss ds h"
  have a: "?app = ?load\<lparr>screens := showScreen ''suitcase'' (screens ?load),
                    story := initSuitcasePage (Num 2) \<lparr>pdom = ?d, listeners = []\<rparr>\<rparr>"
    by (simp add: init_def jumpTo_def appLoad_def parseInt10_2 Let_def)
  have scr: "activeScreens ?app = [''suitcase'']"
    unfolding a by (simp add: activeScreens_def showScreen_def appLoad_def)
  have len: "length (steps ?d) = length ss"
    by (simp add: loadDom_def)
  have cur: "currentStep (fst (initSuitcase (Num 2) ?d)) = Num 2"
    using assms by (simp add: initSuitcase_currentStep len)
  have min2: "min 2 (int (length ss) - 1) = 2"
    using assms by simp
  then have "activeSteps (snd (initSuitcase (Num 2) ?d)) = filter (\<lambda>i. i = 2) [0..<length ss]"
    by (simp add: initSuitcase_def Let_def activeSteps_showStep len)
  also have "\<dots> = [2]"
    using assms by (simp add: filter_eq_upt)
  finally have act: "activeSteps (snd (initSuitcase (Num 2) ?d)) = [2]" .
  have map: "mapInitialised (snd (initSuitcase (Num 2) ?d))
      \<and> mapInits (snd (initSuitcase (Num 2) ?d)) = 1"
    using min2 by (simp add: initSuitcase_def showStep_def initMap_def loadDom_def Let_def)
  have flow: "flowsStarted ?app = 0"
    unfolding a by (simp add: appLoad_def)
  have st: "story ?app = initSuitcasePage (Num 2) \<lparr>pdom = ?d, listeners = []\<rparr>"
    unfolding a by simp
  show ?thesis
    using scr cur act map flow
    unfolding st by (simp add: initSuitcasePage_def Let_def)
qed

theorem C2_suitcase_deep_link_witness:
  "3 \<le> length (replicate 4 \<lparr>active = False, exited = False\<rparr>)
   \<and> activeScreens (init (Some ''suitcase'') (Some ''2'')
        (appLoad True False False False
           (loadDom (replicate 4 \<lparr>active = False, exited = False\<rparr>) (replicate 4 False) [])))
       = [''suitcase'']
   \<and> activeSteps (pdom (story (init (Some ''suitcase'') (Some ''2'')
        (appLoad True False False False
           (loadDom (replicate 4 \<lparr>active = False, exited = False\<rparr>) (replicate 4 False) [])))))
       = [2]
   \<and> mapInits (pdom (story (init (Some ''suitcase'') (Some ''2'')
        (appLoad True False False False
           (loadDom (replicate 4 \<lparr>active = False, exited = False\<rparr>) (replicate 4 False) [])))))
       = 1
   \<and> flowsStarted (init (Some ''suitcase'') (Some ''2'')
        (appLoad True False False False
           (loadDom (replicate 4 \<lparr>active = False, exited = False\<rparr>) (replicate 4 False) [])))
       = 0"
proof -
  have h: "3 \<le> length (replicate 4 \<lparr>active = False, exited = False\<rparr>)"
    by simp
  show ?thesis
    using C2_suitcase_deep_link [OF h, of True False False False "replicate 4 False" "[]"] h
    by blast
qed

text \<open>
  C2, as the claim words it. \<^verbatim>\<open>story\<close> is no key of \<^verbatim>\<open>screens\<close>: for the query
  \<^verbatim>\<open>screen=story&step=2\<close> the code runs the default flow. The progress screen is the
  active one, \<^verbatim>\<open>startFlow\<close> was called, no story sequencer exists, no step is active
  and the map is not initialised.
\<close>

theorem C2_story_deep_link_runs_default_flow:
  "activeScreens (init (Some ''story'') (Some ''2'') (appLoad False False False False (freshDom 4)))
     = [''progress'']
   \<and> flowsStarted (init (Some ''story'') (Some ''2'') (appLoad False False False False (freshDom 4)))
     = 1
   \<and> listeners (story
       (init (Some ''story'') (Some ''2'') (appLoad False False False False (freshDom 4)))) = []
   \<and> activeSteps (pdom (story
       (init (Some ''story'') (Some ''2'') (appLoad False False False False (freshDom 4))))) = []
   \<and> \<not> mapInitialised (pdom (story
       (init (Some ''story'') (Some ''2'') (appLoad False False False False (freshDom 4)))))"
  by (simp add: init_def startFlow_def appLoad_def objectPrototypeKeys_def activeScreens_def
      showScreen_def freshDom_def loadDom_def activeSteps_def enumerate_eq_zip eval_nat_numeral)


subsection \<open>A start index past the map step\<close>

lemma exec_append: "exec (xs @ ys) qd = exec ys (exec xs qd)"
  by (simp add: exec_def)

lemma pageStep_single:
  assumes "listeners p = [q]" and "\<not> isInit e"
  shows "\<exists>es'. listeners (pageStep e p) = [fst (exec es' (q, pdom p))]
           \<and> pdom (pageStep e p) = snd (exec es' (q, pdom p))"
proof (cases e)
  case (PInit s)
  with assms(2) show ?thesis by simp
next
  case PTap
  have "listeners (pageStep e p) = [fst (exec [Tap] (q, pdom p))]
      \<and> pdom (pageStep e p) = snd (exec [Tap] (q, pdom p))"
    using PTap assms(1) by (simp add: pageClick_def exec_def Let_def)
  then show ?thesis by blast
next
  case PTapGift
  have "listeners (pageStep e p) = [fst (exec [TapGift] (q, pdom p))]
      \<and> pdom (pageStep e p) = snd (exec [TapGift] (q, pdom p))"
    using PTapGift assms(1) by (simp add: pageClick_def exec_def Let_def)
  then show ?thesis by blast
next
  case (PTimeout i)
  show ?thesis
  proof (cases "i = 0")
    case True
    have "listeners (pageStep e p) = [fst (exec [Timeout] (q, pdom p))]
        \<and> pdom (pageStep e p) = snd (exec [Timeout] (q, pdom p))"
      using PTimeout True assms(1) by (simp add: pageTimeout_def exec_def Let_def)
    then show ?thesis by blast
  next
    case False
    have "listeners (pageStep e p) = [fst (exec [] (q, pdom p))]
        \<and> pdom (pageStep e p) = snd (exec [] (q, pdom p))"
      using PTimeout False assms(1) by (simp add: pageTimeout_def)
    then show ?thesis by blast
  qed
qed

lemma pageExec_single:
  assumes "\<forall>e \<in> set pes. \<not> isInit e"
  shows "\<exists>es'. listeners (pageExec pes \<lparr>pdom = d0, listeners = [q0]\<rparr>) = [fst (exec es' (q0, d0))]
           \<and> pdom (pageExec pes \<lparr>pdom = d0, listeners = [q0]\<rparr>) = snd (exec es' (q0, d0))"
  using assms
proof (induction pes rule: rev_induct)
  case Nil
  have "listeners (pageExec [] \<lparr>pdom = d0, listeners = [q0]\<rparr>) = [fst (exec [] (q0, d0))]
      \<and> pdom (pageExec [] \<lparr>pdom = d0, listeners = [q0]\<rparr>) = snd (exec [] (q0, d0))"
    by simp
  then show ?case by blast
next
  case (snoc e pes)
  let ?p = "pageExec pes \<lparr>pdom = d0, listeners = [q0]\<rparr>"
  from snoc obtain es1 where 1: "listeners ?p = [fst (exec es1 (q0, d0))]"
      "pdom ?p = snd (exec es1 (q0, d0))"
    by auto
  have "\<not> isInit e" using snoc.prems by simp
  from pageStep_single [OF 1(1) this] obtain es2 where
    2: "listeners (pageStep e ?p) = [fst (exec es2 (fst (exec es1 (q0, d0)), pdom ?p))]"
       "pdom (pageStep e ?p) = snd (exec es2 (fst (exec es1 (q0, d0)), pdom ?p))"
    by blast
  have "exec es2 (fst (exec es1 (q0, d0)), pdom ?p) = exec (es1 @ es2) (q0, d0)"
    by (simp add: 1(2) exec_append)
  with 2 have "listeners (pageExec (pes @ [e]) \<lparr>pdom = d0, listeners = [q0]\<rparr>)
        = [fst (exec (es1 @ es2) (q0, d0))]
      \<and> pdom (pageExec (pes @ [e]) \<lparr>pdom = d0, listeners = [q0]\<rparr>)
        = snd (exec (es1 @ es2) (q0, d0))"
    by simp
  then show ?case by blast
qed

text \<open>
  C10, as the code has it. \<open>showStep\<close> touches the map only for the index 2. So for a
  valid start index \<open>k > 2\<close>, \<open>initSuitcase\<close> leaves the map flag and the count of map
  initialisations as they were, and so does every sequence of events of that run
  (the taps and timers of that closure). On the page: when this call of
  \<open>initSuitcase\<close> is the first one, the map stays untouched through every sequence of
  taps and timers in which \<open>initSuitcase\<close> is not run again.
\<close>

theorem C10_start_past_map_step_never_initialises_map:
  assumes "2 < k" and "k < int (length (steps d))"
  shows "mapInits (snd (initSuitcase (Num k) d)) = mapInits d
       \<and> mapInitialised (snd (initSuitcase (Num k) d)) = mapInitialised d
       \<and> mapInits (snd (exec es (initSuitcase (Num k) d))) = mapInits d
       \<and> mapInitialised (snd (exec es (initSuitcase (Num k) d))) = mapInitialised d
       \<and> (mapInits (snd (showStep index animate qd)) \<noteq> mapInits (snd qd) \<longrightarrow> index = Num 2)
       \<and> ((\<forall>e \<in> set pes. \<not> isInit e) \<longrightarrow>
            mapInits (pdom (pageExec pes (initSuitcasePage (Num k) \<lparr>pdom = d, listeners = []\<rparr>)))
              = mapInits d
            \<and> mapInitialised
                (pdom (pageExec pes (initSuitcasePage (Num k) \<lparr>pdom = d, listeners = []\<rparr>)))
              = mapInitialised d)"
proof -
  let ?s0 = "initSuitcase (Num k) d"
  have cur: "currentStep (fst ?s0) = Num k"
    using assms by (simp add: initSuitcase_currentStep)
  have "Num k \<noteq> Num 2" using assms(1) by simp
  then have init: "mapInits (snd ?s0) = mapInits d \<and> mapInitialised (snd ?s0) = mapInitialised d"
    using assms by (simp add: initSuitcase_def Let_def showStep_map_other)
  have range: "2 \<le> k" "k \<le> totalSteps (fst ?s0) - 1"
    using assms by simp_all
  have run: "mapInits (snd (exec xs ?s0)) = mapInits d
       \<and> mapInitialised (snd (exec xs ?s0)) = mapInitialised d" for xs
    using exec_map_past [OF cur range, of xs] init by simp
  have only2: "mapInits (snd (showStep index animate qd)) \<noteq> mapInits (snd qd) \<longrightarrow> index = Num 2"
    using showStep_map_other [of index animate qd] by blast
  have page: "mapInits (pdom (pageExec pes (initSuitcasePage (Num k) \<lparr>pdom = d, listeners = []\<rparr>)))
        = mapInits d
      \<and> mapInitialised (pdom (pageExec pes (initSuitcasePage (Num k) \<lparr>pdom = d, listeners = []\<rparr>)))
        = mapInitialised d"
    if no_init: "\<forall>e \<in> set pes. \<not> isInit e"
  proof -
    have start: "initSuitcasePage (Num k) \<lparr>pdom = d, listeners = []\<rparr>
        = \<lparr>pdom = snd ?s0, listeners = [fst ?s0]\<rparr>"
      by (simp add: initSuitcasePage_def Let_def)
    from pageExec_single [OF no_init, of "snd ?s0" "fst ?s0"] obtain xs where
      "pdom (pageExec pes \<lparr>pdom = snd ?s0, listeners = [fst ?s0]\<rparr>) = snd (exec xs ?s0)"
      by auto
    with run [of xs] show ?thesis
      unfolding start by simp
  qed
  from init run [of es] only2 page show ?thesis by blast
qed

theorem C10_start_past_map_step_witness:
  "(2::int) < 3 \<and> 3 < int (length (steps (freshDom 4)))
   \<and> \<not> isInit PTap \<and> \<not> isInit (PTimeout 0)
   \<and> mapInits (snd (initSuitcase (Num 3) (freshDom 4))) = 0
   \<and> \<not> mapInitialised (snd (initSuitcase (Num 3) (freshDom 4)))
   \<and> mapInits (snd (exec [Tap, Timeout, Tap] (initSuitcase (Num 3) (freshDom 4)))) = 0
   \<and> \<not> mapInitialised (snd (exec [Tap, Timeout, Tap] (initSuitcase (Num 3) (freshDom 4))))
   \<and> mapInits (pdom (pageExec [PTap, PTimeout 0, PTap]
        (initSuitcasePage (Num 3) \<lparr>pdom = freshDom 4, listeners = []\<rparr>))) = 0"
proof -
  have h1: "(2::int) < 3" by simp
  have h2: "3 < int (length (steps (freshDom 4)))"
    by (simp add: freshDom_def loadDom_def)
  have h3: "\<forall>e \<in> set [PTap, PTimeout 0, PTap]. \<not> isInit e"
    by simp
  have m: "mapInits (freshDom 4) = 0" "\<not> mapInitialised (freshDom 4)"
    by (simp_all add: freshDom_def loadDom_def)
  show ?thesis
    using C10_start_past_map_step_never_initialises_map
      [OF h1 h2, of "[Tap, Timeout, Tap]" _ _ _ "[PTap, PTimeout 0, PTap]"] h1 h2 h3 m
    by simp
qed

text \<open>
  C10, as the claim words it ("entirely for that session"). After the deep link
  \<^verbatim>\<open>?screen=suitcase&step=3\<close> on four steps the map is not initialised. A click on
  \<^verbatim>\<open>#btn-next-steps\<close> runs \<^verbatim>\<open>initSuitcase()\<close> again, from step 0; a tap, the timer of
  the new closure and another tap then display step 2, and the map is initialised in
  that same session.
\<close>

theorem C10_session_reaches_map_after_deep_link:
  "mapInits (pdom (story
      (init (Some ''suitcase'') (Some ''3'') (appLoad False False False False (freshDom 4))))) = 0
   \<and> map currentStep (listeners (story
      (init (Some ''suitcase'') (Some ''3'') (appLoad False False False False (freshDom 4)))))
       = [Num 3]
   \<and> mapInits (pdom (story
      (appExec [ClickNextSteps, TapStory, StoryTimer 1, TapStory]
        (init (Some ''suitcase'') (Some ''3'') (appLoad False False False False (freshDom 4))))))
       = 1
   \<and> mapInitialised (pdom (story
      (appExec [ClickNextSteps, TapStory, StoryTimer 1, TapStory]
        (init (Some ''suitcase'') (Some ''3'') (appLoad False False False False (freshDom 4))))))"
  by (simp add: appExec_def init_def jumpTo_def appLoad_def parseInt10_def isWhiteSpace_def
      isDigit_def digitValue_def initSuitcasePage_def initSuitcase_def showStep_def
      stepClasses_def initMap_def pageClick_def pageTimeout_def click_def timeout_def
      freshDom_def loadDom_def showScreen_def Let_def enumerate_eq_zip eval_nat_numeral)

section \<open>Properties of the fill animator\<close>

subsection \<open>Rounding\<close>

text \<open>
  An integer of magnitude below \<open>2^53\<close> is a double: rounding leaves it as it is. The
  evaluation rules compute the rounding of a fraction of two numerals.
\<close>

lemma roundHalfEven_of_int [simp]: "roundHalfEven (of_int z) = z"
  by (simp add: roundHalfEven_def)

lemma bitlen_le_53:
  assumes "0 < a" and "a < 2 ^ 53"
  shows "1 \<le> bitlen a" and "bitlen a \<le> 53"
proof -
  from bitlen_bounds [OF assms(1)] have lo: "2 ^ nat (bitlen a - 1) \<le> a"
    by simp
  show "1 \<le> bitlen a"
    using assms(1) bitlen_eq_zero_iff [of a] bitlen_nonneg [of a] by linarith
  have "(2::int) ^ nat (bitlen a - 1) < 2 ^ 53"
    using lo assms(2) by linarith
  then have "nat (bitlen a - 1) < 53"
    by (simp only: power_strict_increasing_iff [of "2::int"])
  then show "bitlen a \<le> 53"
    by linarith
qed

lemma scale_exponent:
  assumes "0 < a" and "a < 2 ^ 53"
  shows "(2::rat) powi (max (binaryExponent (of_int a)) (- 1022) - 52)
           = inverse (2 ^ nat (53 - bitlen a))"
proof -
  define k where "k = nat (53 - bitlen a)"
  have b: "1 \<le> bitlen a" "bitlen a \<le> 53"
    using bitlen_le_53 [OF assms] by simp_all
  have one: "(1::rat) \<le> of_int a"
    using assms(1) by simp
  have e: "binaryExponent (of_int a) = bitlen a - 1"
    using one by (simp add: binaryExponent_def)
  have q: "max (binaryExponent (of_int a)) (- 1022) - 52 = - int k"
    using b by (simp add: e k_def)
  have "(2::rat) powi (- int k) = inverse (2 ^ k)"
    by (simp add: power_int_minus)
  then show ?thesis
    unfolding q k_def .
qed

lemma roundHalfEven_scaled:
  "roundHalfEven (of_int a / inverse (2 ^ k)) = a * 2 ^ k"
proof -
  have "of_int a / inverse ((2::rat) ^ k) = of_int (a * 2 ^ k)"
    by (simp add: divide_inverse)
  then show ?thesis
    by (simp only: roundHalfEven_of_int)
qed

lemma toDouble_of_int:
  assumes "\<bar>n\<bar> < 2 ^ 53"
  shows "toDouble (of_int n) = Fin (of_int n)"
proof (cases "n = 0")
  case True
  then show ?thesis by (simp add: toDouble_def)
next
  case False
  define a where "a = \<bar>n\<bar>"
  have a: "0 < a" "a < 2 ^ 53"
    using False assms by (simp_all add: a_def)
  have abs: "\<bar>of_int n :: rat\<bar> = of_int a"
    by (simp add: a_def)
  have scaled: "of_int (a * 2 ^ k) * inverse (2 ^ k) = (of_int a :: rat)" for k
    by simp
  have small: "\<not> (2::rat) ^ 1024 \<le> of_int a"
  proof -
    have "a < 2 ^ 1024"
      using a(2) by (rule less_trans) simp
    then have "(of_int a :: rat) < of_int (2 ^ 1024)"
      by (simp only: of_int_less_iff)
    then show ?thesis by simp
  qed
  have sg: "sgn (of_int n :: rat) * of_int a = of_int n"
    by (simp add: a_def sgn_if)
  have nz: "(of_int n :: rat) \<noteq> 0"
    using False by simp
  have "toDouble (of_int n)
      = (if (2::rat) ^ 1024 \<le> of_int a
         then (if 0 < (of_int n :: rat) then PosInfinity else NegInfinity)
         else Fin (sgn (of_int n) * of_int a))"
    unfolding toDouble_def Let_def abs scale_exponent [OF a] roundHalfEven_scaled scaled
    using nz by (simp only: if_False)
  also have "\<dots> = Fin (of_int n)"
    using small by (simp only: if_False sg)
  finally show ?thesis .
qed

lemma toDouble_consts [simp]:
  "toDouble 0 = Fin 0" "toDouble 1 = Fin 1" "toDouble 2 = Fin 2" "toDouble (- 2) = Fin (- 2)"
  using toDouble_of_int [of 0] toDouble_of_int [of 1] toDouble_of_int [of 2]
    toDouble_of_int [of "- 2"]
  by simp_all

lemma toDouble_not_NaN [simp]: "toDouble x \<noteq> FNaN"
  by (simp add: toDouble_def Let_def)

lemma floor_rat_numeral: "\<lfloor>numeral a / numeral b :: rat\<rfloor> = numeral a div numeral b"
  by (metis floor_divide_of_int_eq of_int_numeral)

lemma ceiling_rat_numeral: "\<lceil>numeral a / numeral b :: rat\<rceil> = - (- numeral a div numeral b)"
  unfolding ceiling_def
  by (metis divide_minus_left floor_divide_of_int_eq of_int_neg_numeral of_int_numeral)

lemmas toDouble_eval = toDouble_def binaryExponent_def roundHalfEven_def Let_def compute_bitlen
  power_int_minus floor_rat_numeral ceiling_rat_numeral

text \<open>
  The rounding error. A rational below \<open>2^(n+1)\<close> in magnitude lies between doubles that
  are at most \<open>2^(n-52)\<close> apart, so its double is finite and differs from it by at most
  \<open>2^(n-53)\<close>. The double of a rational that is not negative is not negative.
\<close>

lemma roundHalfEven_near: "\<bar>of_int (roundHalfEven y) - y\<bar> \<le> (1 / 2 :: rat)"
proof -
  define f where "f = (of_int \<lfloor>y\<rfloor> :: rat)"
  have b: "f \<le> y" "y < f + 1"
    unfolding f_def by linarith+
  have "roundHalfEven y = \<lfloor>y\<rfloor> \<and> y - f \<le> 1 / 2 \<or> roundHalfEven y = \<lfloor>y\<rfloor> + 1 \<and> 1 / 2 \<le> y - f"
    unfolding f_def roundHalfEven_def Let_def by auto
  then show ?thesis
  proof
    assume "roundHalfEven y = \<lfloor>y\<rfloor> \<and> y - f \<le> 1 / 2"
    then have "of_int (roundHalfEven y) = f" "y - f \<le> 1 / 2"
      by (simp_all add: f_def)
    with b show ?thesis by simp
  next
    assume "roundHalfEven y = \<lfloor>y\<rfloor> + 1 \<and> 1 / 2 \<le> y - f"
    then have "of_int (roundHalfEven y) = f + 1" "1 / 2 \<le> y - f"
      by (simp_all add: f_def)
    with b show ?thesis by simp
  qed
qed

lemma binaryExponent_le:
  assumes "0 < x" and "x < 2 ^ Suc n"
  shows "binaryExponent x \<le> int n"
proof (cases "1 \<le> x")
  case True
  have "\<lfloor>x\<rfloor> < 2 ^ Suc n"
    using assms(2) by (simp add: floor_less_iff)
  then have "\<lfloor>x\<rfloor> < 2 ^ nat (int (Suc n))"
    by (simp only: nat_int)
  then have "bitlen \<lfloor>x\<rfloor> \<le> int (Suc n)"
    by (simp only: bitlen_le_iff_power) simp
  with True show ?thesis
    by (simp add: binaryExponent_def)
next
  case False
  then show ?thesis
    using bitlen_nonneg [of "\<lceil>1 / x\<rceil> - 1"] by (simp add: binaryExponent_def)
qed

lemma toDouble_near:
  assumes "\<bar>x\<bar> < 2 ^ Suc n" and "n \<le> 1000"
  shows "\<exists>y. toDouble x = Fin y \<and> \<bar>y - x\<bar> \<le> 2 ^ n / 2 ^ 53"
proof (cases "x = 0")
  case True
  then show ?thesis by (simp add: toDouble_def)
next
  case False
  define q where "q = max (binaryExponent \<bar>x\<bar>) (- 1022) - 52"
  define u where "u = (2::rat) powi q"
  define m where "m = roundHalfEven (\<bar>x\<bar> / u)"
  define r where "r = of_int m * u"
  have pos: "0 < \<bar>x\<bar>"
    using False by simp
  have "q \<le> int n - 52"
    using binaryExponent_le [OF pos assms(1)] by (simp add: q_def)
  then have "u \<le> 2 powi (int n - 52)"
    unfolding u_def by (rule power_int_increasing) simp
  also have "\<dots> = 2 ^ n / 2 ^ 52"
    by (simp add: power_int_diff)
  finally have u_le: "u \<le> 2 ^ n / 2 ^ 52" .
  have u_pos: "0 < u"
    by (simp add: u_def zero_less_power_int)
  have "\<bar>of_int m - \<bar>x\<bar> / u\<bar> \<le> 1 / 2"
    unfolding m_def by (rule roundHalfEven_near)
  then have "\<bar>of_int m - \<bar>x\<bar> / u\<bar> * u \<le> 1 / 2 * u"
    using u_pos by (simp only: mult_le_cancel_right_pos)
  moreover have "\<bar>of_int m - \<bar>x\<bar> / u\<bar> * u = \<bar>r - \<bar>x\<bar>\<bar>"
  proof -
    have "\<bar>of_int m - \<bar>x\<bar> / u\<bar> * u = \<bar>(of_int m - \<bar>x\<bar> / u) * u\<bar>"
      using u_pos by (simp add: abs_mult)
    also have "(of_int m - \<bar>x\<bar> / u) * u = r - \<bar>x\<bar>"
      using u_pos by (simp add: r_def left_diff_distrib)
    finally show ?thesis .
  qed
  ultimately have "\<bar>r - \<bar>x\<bar>\<bar> \<le> u / 2"
    by simp
  with u_le have near: "\<bar>r - \<bar>x\<bar>\<bar> \<le> 2 ^ n / 2 ^ 53"
    by simp
  have sg: "\<bar>sgn x * r - x\<bar> = \<bar>r - \<bar>x\<bar>\<bar>"
    using False by (cases "0 < x") (simp_all add: sgn_if abs_if)
  have "(2::rat) ^ n / 2 ^ 53 \<le> 2 ^ n"
    by (simp add: field_simps)
  with near have "r \<le> \<bar>x\<bar> + 2 ^ n"
    by linarith
  with assms(1) have "r < 2 ^ Suc n + 2 ^ n"
    by linarith
  also have "\<dots> \<le> (2::rat) ^ 1002"
  proof -
    have "(2::rat) ^ Suc n \<le> 2 ^ 1001" and "(2::rat) ^ n \<le> 2 ^ 1001"
      using assms(2) by (simp_all only: power_increasing_iff [of "2::rat"])
    then show ?thesis by simp
  qed
  also have "\<dots> < (2::rat) ^ 1024"
    by (simp only: power_strict_increasing_iff [of "2::rat"])
  finally have small: "\<not> 2 ^ 1024 \<le> r" 
    by simp
  have "toDouble x = Fin (sgn x * r)"
    using False small unfolding toDouble_def Let_def q_def [symmetric] u_def [symmetric]
      m_def [symmetric] r_def [symmetric]
    by (simp only: if_False)
  with near sg show ?thesis
    by simp
qed

lemma toDouble_near_4:
  assumes "\<bar>x\<bar> < 4"
  shows "\<exists>y. toDouble x = Fin y \<and> \<bar>y - x\<bar> \<le> 1 / 2 ^ 52"
  using toDouble_near [of x 1] assms by simp

lemma toDouble_near_512:
  assumes "\<bar>x\<bar> < 512"
  shows "\<exists>y. toDouble x = Fin y \<and> \<bar>y - x\<bar> \<le> 1 / 2 ^ 45"
  using toDouble_near [of x 8] assms by simp

lemma roundHalfEven_nonneg:
  assumes "0 \<le> y"
  shows "0 \<le> roundHalfEven y"
proof -
  have "0 \<le> \<lfloor>y\<rfloor>"
    using assms by simp
  then show ?thesis
    by (simp add: roundHalfEven_def Let_def)
qed

lemma toDouble_nonneg:
  assumes "0 \<le> x"
  shows "toDouble x = PosInfinity \<or> (\<exists>y. toDouble x = Fin y \<and> 0 \<le> y)"
proof (cases "x = 0")
  case True
  then show ?thesis by (simp add: toDouble_def)
next
  case False
  define q where "q = max (binaryExponent \<bar>x\<bar>) (- 1022) - 52"
  define r where "r = of_int (roundHalfEven (\<bar>x\<bar> / 2 powi q)) * (2::rat) powi q"
  have u: "0 < (2::rat) powi q"
    by (simp add: zero_less_power_int)
  then have "0 \<le> \<bar>x\<bar> / 2 powi q"
    by simp
  then have "0 \<le> roundHalfEven (\<bar>x\<bar> / 2 powi q)"
    by (rule roundHalfEven_nonneg)
  then have r: "0 \<le> r"
    using u by (simp add: r_def)
  have pos: "0 < x"
    using False assms by simp
  have "toDouble x = (if 2 ^ 1024 \<le> r then PosInfinity else Fin r)"
    using pos unfolding toDouble_def Let_def q_def [symmetric] r_def [symmetric]
    by simp
  with r show ?thesis
    by simp
qed

subsection \<open>The easing curve\<close>

text \<open>
  On normalized times between 0 and 1 the five rounded operations of \<open>eased\<close> stay within
  \<open>2^-49\<close> of the curve of the specification.
\<close>

lemma abs_product_le:
  fixes a b :: rat
  assumes "\<bar>a\<bar> \<le> c" and "\<bar>b\<bar> \<le> d"
  shows "\<bar>a * b\<bar> \<le> c * d"
  unfolding abs_mult using assms by (intro mult_mono) simp_all

lemma easeInOutQuad_spec_range:
  assumes "0 \<le> t" and "t \<le> 1"
  shows "0 \<le> easeInOutQuad_spec t" and "easeInOutQuad_spec t \<le> 1"
proof -
  define s where "s = - 2 * t + 2"
  have half: "t * t \<le> (1 / 2) * (1 / 2)" if "t < 1 / 2"
    using assms(1) that by (intro mult_mono) simp_all
  have one: "s * s \<le> 1 * 1" and pos: "0 \<le> s * s" if "\<not> t < 1 / 2"
    using assms(2) that by (intro mult_mono, simp_all add: s_def)
  have unfold: "easeInOutQuad_spec t = (if t < 1 / 2 then 2 * (t * t) else 1 - (s * s) / 2)"
    by (simp add: easeInOutQuad_spec_def s_def power2_eq_square)
  have sq: "0 \<le> t * t"
    by simp
  show "0 \<le> easeInOutQuad_spec t"
    unfolding unfold using one sq by (cases "t < 1 / 2") simp_all
  show "easeInOutQuad_spec t \<le> 1"
    unfolding unfold using half pos by (cases "t < 1 / 2") simp_all
qed

lemma eased_near:
  assumes "0 \<le> t" and "t \<le> 1"
  shows "\<exists>e. eased (Fin t) = Fin e \<and> \<bar>e - easeInOutQuad_spec t\<bar> \<le> 1 / 2 ^ 49"
proof -
  define eps where "eps = (1::rat) / 2 ^ 52"
  have eps: "0 \<le> eps" "eps \<le> 1 / 16"
    by (simp_all add: eps_def)
  have eight: "8 * eps = 1 / 2 ^ 49"
    by (simp add: eps_def)
  have near: "\<exists>y. toDouble x = Fin y \<and> \<bar>y - x\<bar> \<le> eps" if "\<bar>x\<bar> < 4" for x
    unfolding eps_def using that by (rule toDouble_near_4)
  show ?thesis
  proof (cases "t < 1 / 2")
    case True
    have "\<bar>2 * t\<bar> < 4"
      using assms by linarith
    from near [OF this] obtain a where
      a: "toDouble (2 * t) = Fin a" "\<bar>a - 2 * t\<bar> \<le> eps"
      by blast
    have a_le: "\<bar>a\<bar> \<le> 2"
      using a(2) True assms(1) eps by linarith
    have "\<bar>a * t\<bar> \<le> 2 * 1"
      using a_le assms by (intro abs_product_le) simp_all
    then have "\<bar>a * t\<bar> < 4"
      by simp
    from near [OF this] obtain b where
      b: "toDouble (a * t) = Fin b" "\<bar>b - a * t\<bar> \<le> eps"
      by blast
    have e: "eased (Fin t) = Fin b"
      using True a(1) b(1) by (simp add: eased_def)
    have "\<bar>(a - 2 * t) * t\<bar> \<le> eps * 1"
      using a(2) assms by (intro abs_product_le) simp_all
    moreover have "b - 2 * t\<^sup>2 = (b - a * t) + (a - 2 * t) * t"
      by (simp add: power2_eq_square algebra_simps)
    ultimately have "\<bar>b - 2 * t\<^sup>2\<bar> \<le> 8 * eps"
      using b(2) eps(1) by linarith
    then have "\<bar>b - easeInOutQuad_spec t\<bar> \<le> 1 / 2 ^ 49"
      unfolding eight using True by (simp only: easeInOutQuad_spec_def if_True)
    with e show ?thesis
      by blast
  next
    case False
    define s where "s = - 2 * t + 2"
    have s: "0 \<le> s" "s \<le> 1"
      using False assms by (simp_all add: s_def)
    have "\<bar>- 2 * t\<bar> < 4"
      using assms by linarith
    from near [OF this] obtain u where
      u: "toDouble (- 2 * t) = Fin u" "\<bar>u - (- 2 * t)\<bar> \<le> eps"
      by blast
    have us: "\<bar>u + 2 - s\<bar> \<le> eps"
      using u(2) by (simp add: s_def)
    have "\<bar>u + 2\<bar> < 4"
      using us s eps by linarith
    from near [OF this] obtain v where
      v: "toDouble (u + 2) = Fin v" "\<bar>v - (u + 2)\<bar> \<le> eps"
      by blast
    have vs: "\<bar>v - s\<bar> \<le> 2 * eps"
      using us v(2) by linarith
    have v_le: "\<bar>v\<bar> \<le> 3 / 2"
      using vs s eps by linarith
    have "\<bar>v * v\<bar> \<le> (3 / 2) * (3 / 2)"
      using v_le by (intro abs_product_le)
    then have vv: "\<bar>v * v\<bar> \<le> 9 / 4"
      by simp
    then have "\<bar>v * v\<bar> < 4"
      by linarith
    from near [OF this] obtain w where
      w: "toDouble (v * v) = Fin w" "\<bar>w - v * v\<bar> \<le> eps"
      by blast
    have w_le: "\<bar>w\<bar> \<le> 3"
      using w(2) vv eps by linarith
    then have "\<bar>w / 2\<bar> < 4"
      by simp
    from near [OF this] obtain x where
      x: "toDouble (w / 2) = Fin x" "\<bar>x - w / 2\<bar> \<le> eps"
      by blast
    have "\<bar>1 - x\<bar> < 4"
      using x(2) w_le eps by linarith
    from near [OF this] obtain y where
      y: "toDouble (1 - x) = Fin y" "\<bar>y - (1 - x)\<bar> \<le> eps"
      by blast
    have e: "eased (Fin t) = Fin y"
      using False u(1) v(1) w(1) x(1) y(1) by (simp add: eased_def fpow2_def fsub_def)
    have "\<bar>v + s\<bar> \<le> 3"
      using v_le s by linarith
    with vs have "\<bar>(v - s) * (v + s)\<bar> \<le> (2 * eps) * 3"
      by (intro abs_product_le)
    moreover have "v * v - s * s = (v - s) * (v + s)"
      by (simp add: algebra_simps)
    ultimately have sq: "\<bar>v * v - s * s\<bar> \<le> 6 * eps"
      by simp
    have "\<bar>y - (1 - s * s / 2)\<bar> \<le> 8 * eps"
      using y(2) x(2) w(2) sq eps(1) by linarith
    moreover have "easeInOutQuad_spec t = 1 - s * s / 2"
      using False by (simp add: easeInOutQuad_spec_def s_def power2_eq_square)
    ultimately have "\<bar>y - easeInOutQuad_spec t\<bar> \<le> 1 / 2 ^ 49"
      unfolding eight by simp
    with e show ?thesis
      by blast
  qed
qed

subsection \<open>The last frame\<close>

text \<open>
  For a positive finite duration the quotient \<^verbatim>\<open>elapsed / duration\<close> is no \<open>NaN\<close>, so a
  frame that does not request another one has \<^verbatim>\<open>progress\<close> equal to \<open>1\<close>, where the easing
  is \<open>1\<close>, and it writes \<^verbatim>\<open>startWidth + delta * 1\<close>. On integers below \<open>2^52\<close> the difference,
  the product and the sum are exact.
\<close>

lemma fsub_Fin [simp]: "fsub (Fin a) (Fin b) = toDouble (a - b)"
  by (simp add: fsub_def)

lemma eased_one: "eased (Fin 1) = Fin 1"
  by (simp add: eased_def fpow2_def)

lemma fmin_one_cap:
  assumes "x \<noteq> FNaN" and "\<not> flt (fmin x (Fin 1)) (Fin 1)"
  shows "fmin x (Fin 1) = Fin 1"
  using assms by (cases x) (auto simp: fmin_def split: if_splits)

lemma quotient_not_NaN:
  assumes "0 < d"
  shows "fdiv (fsub (Fin now) (Fin start)) (Fin d) \<noteq> FNaN"
proof (cases "toDouble (now - start)")
  case FNaN
  then show ?thesis by simp
next
  case PosInfinity
  then show ?thesis using assms by (simp add: infinity_def)
next
  case NegInfinity
  then show ?thesis using assms by (simp add: infinity_def)
next
  case (Fin e)
  then show ?thesis using assms by simp
qed

lemma progress_cap:
  assumes "0 < d" and "\<not> flt (progressAt start (Fin d) now) (Fin 1)"
  shows "progressAt start (Fin d) now = Fin 1"
  using fmin_one_cap [OF quotient_not_NaN [OF assms(1)], of now start] assms(2)
  by (simp add: progressAt_def)

lemma frame_at_end:
  assumes "0 < d" and "\<not> snd (frame start sw target (Fin d) now)"
  shows "fst (frame start sw target (Fin d) now) = fadd sw (fmul (fsub target sw) (Fin 1))"
proof -
  from assms(2) have "\<not> flt (progressAt start (Fin d) now) (Fin 1)"
    by (simp add: frame_def Let_def)
  from progress_cap [OF assms(1) this] show ?thesis
    by (simp add: frame_def Let_def eased_one)
qed

lemma integers_exact:
  assumes "\<bar>a\<bar> < 2 ^ 52" and "\<bar>b\<bar> < 2 ^ 52"
  shows "fadd (Fin (of_int a)) (fmul (fsub (Fin (of_int b)) (Fin (of_int a))) (Fin 1))
       = Fin (of_int b)"
proof -
  have "\<bar>b - a\<bar> < 2 ^ 53" and "\<bar>b\<bar> < 2 ^ 53"
    using assms by simp_all
  then have d: "toDouble (of_int (b - a)) = Fin (of_int (b - a))"
    and t: "toDouble (of_int b) = Fin (of_int b)"
    by (simp_all only: toDouble_of_int)
  have "fsub (Fin (of_int b)) (Fin (of_int a)) = toDouble (of_int (b - a))"
    by simp
  then have "fmul (fsub (Fin (of_int b)) (Fin (of_int a))) (Fin 1) = Fin (of_int (b - a))"
    using d by simp
  then have "fadd (Fin (of_int a)) (fmul (fsub (Fin (of_int b)) (Fin (of_int a))) (Fin 1))
      = toDouble (of_int a + of_int (b - a))"
    by simp
  also have "\<dots> = toDouble (of_int b)"
    by simp
  finally show ?thesis
    using t by simp
qed

subsection \<open>A frame between the ends\<close>

text \<open>
  For a positive duration and a frame that is not earlier than the call, the normalized
  time is a number between 0 and 1. For percentages of magnitude up to 100 the width
  written then differs from \<open>start + (target - start) * eased(t)\<close>, computed exactly, by
  at most \<open>2^-40\<close>.
\<close>

lemma progressAt_range:
  assumes "0 < d" and "start \<le> now"
  shows "\<exists>t. progressAt start (Fin d) now = Fin t \<and> 0 \<le> t \<and> t \<le> 1"
proof -
  have cap: "\<exists>t. fmin z (Fin 1) = Fin t \<and> 0 \<le> t \<and> t \<le> 1"
    if "z = PosInfinity \<or> (\<exists>y. z = Fin y \<and> 0 \<le> y)" for z
    using that by (auto simp: fmin_def)
  have "0 \<le> now - start"
    using assms(2) by simp
  from toDouble_nonneg [OF this]
  have "fdiv (fsub (Fin now) (Fin start)) (Fin d) = PosInfinity
      \<or> (\<exists>y. fdiv (fsub (Fin now) (Fin start)) (Fin d) = Fin y \<and> 0 \<le> y)"
  proof
    assume "toDouble (now - start) = PosInfinity"
    then show ?thesis
      using assms(1) by (simp add: infinity_def)
  next
    assume "\<exists>y. toDouble (now - start) = Fin y \<and> 0 \<le> y"
    then obtain y where y: "toDouble (now - start) = Fin y" "0 \<le> y"
      by blast
    then have "0 \<le> y / d"
      using assms(1) by simp
    from toDouble_nonneg [OF this] show ?thesis
      using y(1) assms(1) by simp
  qed
  from cap [OF this] show ?thesis
    by (simp add: progressAt_def)
qed

lemma frame_near:
  assumes "progressAt start dur now = Fin t" and "0 \<le> t" and "t \<le> 1"
    and "\<bar>sw\<bar> \<le> 100" and "\<bar>tg\<bar> \<le> 100"
  shows "\<exists>w. fst (frame start (Fin sw) (Fin tg) dur now) = Fin w
           \<and> \<bar>w - (sw + (tg - sw) * easeInOutQuad_spec t)\<bar> \<le> 1 / 2 ^ 40"
proof -
  define eta where "eta = (1::rat) / 2 ^ 45"
  define c where "c = easeInOutQuad_spec t"
  have eta: "0 \<le> eta" "eta \<le> 1 / 16"
    by (simp_all add: eta_def)
  have sixteenth: "(1::rat) / 2 ^ 49 = eta / 16" and total: "32 * eta = 1 / 2 ^ 40"
    by (simp_all add: eta_def)
  have near: "\<exists>y. toDouble x = Fin y \<and> \<bar>y - x\<bar> \<le> eta" if "\<bar>x\<bar> < 512" for x
    unfolding eta_def using that by (rule toDouble_near_512)
  have c: "0 \<le> c" "c \<le> 1"
    unfolding c_def using assms(2,3) by (rule easeInOutQuad_spec_range)+
  from eased_near [OF assms(2,3)] obtain e where
    e: "eased (Fin t) = Fin e" "\<bar>e - c\<bar> \<le> eta / 16"
    unfolding c_def sixteenth by blast
  have e_le: "\<bar>e\<bar> \<le> 2"
    using e(2) c eta by linarith
  have "\<bar>tg - sw\<bar> < 512"
    using assms(4,5) by linarith
  from near [OF this] obtain dl where
    dl: "toDouble (tg - sw) = Fin dl" "\<bar>dl - (tg - sw)\<bar> \<le> eta"
    by blast
  have dl_le: "\<bar>dl\<bar> \<le> 201"
    using dl(2) assms(4,5) eta by linarith
  have "\<bar>dl * e\<bar> \<le> 201 * 2"
    using dl_le e_le by (rule abs_product_le)
  then have de: "\<bar>dl * e\<bar> \<le> 402"
    by simp
  then have "\<bar>dl * e\<bar> < 512"
    by linarith
  from near [OF this] obtain p where
    p: "toDouble (dl * e) = Fin p" "\<bar>p - dl * e\<bar> \<le> eta"
    by blast
  have "\<bar>sw + p\<bar> < 512"
    using p(2) de assms(4) eta by linarith
  from near [OF this] obtain w where
    w: "toDouble (sw + p) = Fin w" "\<bar>w - (sw + p)\<bar> \<le> eta"
    by blast
  have written: "fst (frame start (Fin sw) (Fin tg) dur now) = Fin w"
    using assms(1) e(1) dl(1) p(1) w(1) by (simp add: frame_def Let_def)
  have "\<bar>(dl - (tg - sw)) * e\<bar> \<le> eta * 2"
    using dl(2) e_le by (rule abs_product_le)
  moreover have "\<bar>tg - sw\<bar> \<le> 200"
    using assms(4,5) by linarith
  then have "\<bar>(tg - sw) * (e - c)\<bar> \<le> 200 * (eta / 16)"
    using e(2) by (rule abs_product_le)
  moreover have "dl * e - (tg - sw) * c = (dl - (tg - sw)) * e + (tg - sw) * (e - c)"
    by (simp add: algebra_simps)
  ultimately have "\<bar>dl * e - (tg - sw) * c\<bar> \<le> 2 * eta + 25 / 2 * eta"
    by linarith
  with p(2) w(2) eta(1) have "\<bar>w - (sw + (tg - sw) * c)\<bar> \<le> 32 * eta"
    by linarith
  then have "\<bar>w - (sw + (tg - sw) * easeInOutQuad_spec t)\<bar> \<le> 1 / 2 ^ 40"
    unfolding total c_def .
  with written show ?thesis
    by blast
qed

subsection \<open>The frames of an animation\<close>

lemma frames_resolved:
  "snd (frames start sw target dur nows f)
     = (\<exists>now \<in> set nows. \<not> snd (frame start sw target dur now))"
  by (induction nows arbitrary: f) (simp_all add: Let_def)

lemma written_Nil:
  "(takeWhile P xs @ take 1 (dropWhile P xs) = []) = (xs = [])"
  by (cases xs) auto

lemma frames_width:
  "styleWidth (fst (frames start sw target dur nows f))
     = (if nows = [] then styleWidth f
        else Some (fst (frame start sw target dur
               (last (takeWhile (\<lambda>now. snd (frame start sw target dur now)) nows
                      @ take 1 (dropWhile (\<lambda>now. snd (frame start sw target dur now)) nows))))))"
proof (induction nows arbitrary: f)
  case Nil
  show ?case by simp
next
  case (Cons now nows)
  let ?P = "\<lambda>now. snd (frame start sw target dur now)"
  show ?case
  proof (cases "?P now")
    case True
    have "last (now # (takeWhile ?P nows @ take 1 (dropWhile ?P nows)))
        = (if nows = [] then now else last (takeWhile ?P nows @ take 1 (dropWhile ?P nows)))"
      using written_Nil [of ?P nows] by (simp only: last.simps)
    then show ?thesis
      using True Cons [of "f\<lparr>styleWidth := Some (fst (frame start sw target dur now))\<rparr>"]
      by (simp add: Let_def)
  next
    case False
    then show ?thesis by (simp add: Let_def)
  qed
qed

lemma frames_final:
  assumes "0 < d" and "snd (frames start sw target (Fin d) nows f)"
  shows "styleWidth (fst (frames start sw target (Fin d) nows f))
       = Some (fadd sw (fmul (fsub target sw) (Fin 1)))"
  using assms(2)
proof (induction nows arbitrary: f)
  case Nil
  then show ?case by simp
next
  case (Cons now nows)
  show ?case
  proof (cases "snd (frame start sw target (Fin d) now)")
    case True
    with Cons show ?thesis by (simp add: Let_def)
  next
    case False
    with frame_at_end [OF assms(1) False] show ?thesis
      by (simp add: Let_def)
  qed
qed

lemma animateFill_resolved:
  "snd (animateFill f target dur start nows)
     = (\<exists>now \<in> set nows. \<not> flt (progressAt start dur now) (Fin 1))"
  by (simp add: animateFill_def frames_resolved frame_def Let_def)

text \<open>
  C7, as the code has it. For a call \<^verbatim>\<open>animateFill(fill, target, duration)\<close> with a positive
  finite duration \<open>d\<close>, with \<open>t\<close> the normalized time \<^verbatim>\<open>Math.min(elapsed / duration, 1)\<close> of a
  frame:

  \<^item> the frame writes \<^verbatim>\<open>startWidth + (target - startWidth) * eased(t)\<close>, every operation
    rounding to a double, with \<open>eased\<close> the quadratic ease-in-out of the source, and it
    requests another frame exactly if \<open>t < 1\<close>;
  \<^item> for a frame that is not earlier than the call, \<open>t\<close> is a number between 0 and 1, and
    for a start width and a target of magnitude up to 100 the width written differs by
    at most \<open>2^-40\<close> from \<open>start + (target - start) * eased(t)\<close> computed exactly with the
    curve of the specification;
  \<^item> a frame that does not request another one has \<open>t = 1\<close> and writes
    \<^verbatim>\<open>startWidth + (target - startWidth) * 1\<close>;
  \<^item> that value is the target itself if start width and target are integers of magnitude
    below \<open>2^52\<close>;
  \<^item> the promise is resolved exactly if the browser has delivered a frame with \<open>t \<ge> 1\<close>;
    the width of the indicator is the one written by the first such frame, or by the
    last frame delivered if there is none yet, computed from the start width that the
    call has read from the indicator;
  \<^item> once the promise is resolved the indicator holds
    \<^verbatim>\<open>startWidth + (target - startWidth) * 1\<close>, which for an integer start width and an
    integer target is the target, and is the start width that the next call reads.

  Every call of \<^verbatim>\<open>runProgress\<close> is of that last kind: the targets are 100, 87, 88 and 85,
  the durations are positive, and an indicator is empty or holds the target of the call
  before.
\<close>

theorem C7_animateFill_eased:
  assumes "0 < d"
  shows "frame start sw target (Fin d) now
           = (fadd sw (fmul (fsub target sw) (eased (progressAt start (Fin d) now))),
              flt (progressAt start (Fin d) now) (Fin 1))
       \<and> (start \<le> now \<and> \<bar>x\<bar> \<le> 100 \<and> \<bar>y\<bar> \<le> 100
            \<longrightarrow> (\<exists>t w. progressAt start (Fin d) now = Fin t \<and> 0 \<le> t \<and> t \<le> 1
                  \<and> fst (frame start (Fin x) (Fin y) (Fin d) now) = Fin w
                  \<and> \<bar>w - (x + (y - x) * easeInOutQuad_spec t)\<bar> \<le> 1 / 2 ^ 40))
       \<and> (\<not> flt (progressAt start (Fin d) now) (Fin 1)
            \<longrightarrow> progressAt start (Fin d) now = Fin 1
              \<and> fst (frame start sw target (Fin d) now) = fadd sw (fmul (fsub target sw) (Fin 1)))
       \<and> (\<not> flt (progressAt start (Fin d) now) (Fin 1) \<and> \<bar>a\<bar> < 2 ^ 52 \<and> \<bar>b\<bar> < 2 ^ 52
            \<longrightarrow> fst (frame start (Fin (of_int a)) (Fin (of_int b)) (Fin d) now) = Fin (of_int b))
       \<and> snd (animateFill f target (Fin d) start nows)
           = (\<exists>now \<in> set nows. \<not> flt (progressAt start (Fin d) now) (Fin 1))
       \<and> styleWidth (fst (animateFill f target (Fin d) start nows))
           = (if nows = [] then styleWidth f
              else Some (fst (frame start (startWidthOf f) target (Fin d)
                     (last (takeWhile (\<lambda>now. flt (progressAt start (Fin d) now) (Fin 1)) nows
                            @ take 1 (dropWhile (\<lambda>now. flt (progressAt start (Fin d) now) (Fin 1))
                                 nows))))))
       \<and> (snd (animateFill f target (Fin d) start nows)
            \<longrightarrow> styleWidth (fst (animateFill f target (Fin d) start nows))
                = Some (fadd (startWidthOf f) (fmul (fsub target (startWidthOf f)) (Fin 1))))
       \<and> (snd (animateFill f (Fin (of_int b)) (Fin d) start nows)
              \<and> startWidthOf f = Fin (of_int a) \<and> \<bar>a\<bar> < 2 ^ 52 \<and> \<bar>b\<bar> < 2 ^ 52
            \<longrightarrow> styleWidth (fst (animateFill f (Fin (of_int b)) (Fin d) start nows))
                  = Some (Fin (of_int b))
              \<and> startWidthOf (fst (animateFill f (Fin (of_int b)) (Fin d) start nows))
                  = Fin (of_int b))"
proof -
  let ?t = "progressAt start (Fin d) now"
  have again: "snd (frame start w tg (Fin d) x) = flt (progressAt start (Fin d) x) (Fin 1)" for w tg x
    by (simp add: frame_def Let_def)
  have c1: "frame start sw target (Fin d) now
      = (fadd sw (fmul (fsub target sw) (eased ?t)), flt ?t (Fin 1))"
    by (simp add: frame_def Let_def)
  have c2: "?t = Fin 1 \<and> fst (frame start sw target (Fin d) now) = fadd sw (fmul (fsub target sw) (Fin 1))"
    if "\<not> flt ?t (Fin 1)"
    using that progress_cap [OF assms that] frame_at_end [OF assms, of start sw target now]
    by (simp add: again)
  have c3: "fst (frame start (Fin (of_int a)) (Fin (of_int b)) (Fin d) now) = Fin (of_int b)"
    if "\<not> flt ?t (Fin 1) \<and> \<bar>a\<bar> < 2 ^ 52 \<and> \<bar>b\<bar> < 2 ^ 52"
  proof -
    from that have "\<not> snd (frame start (Fin (of_int a)) (Fin (of_int b)) (Fin d) now)"
      by (simp add: again)
    from frame_at_end [OF assms this] that show ?thesis
      by (simp only: integers_exact)
  qed
  have c4: "snd (animateFill f target (Fin d) start nows)
      = (\<exists>now \<in> set nows. \<not> flt (progressAt start (Fin d) now) (Fin 1))"
    by (rule animateFill_resolved)
  have c5: "styleWidth (fst (animateFill f target (Fin d) start nows))
      = (if nows = [] then styleWidth f
         else Some (fst (frame start (startWidthOf f) target (Fin d)
                (last (takeWhile (\<lambda>now. flt (progressAt start (Fin d) now) (Fin 1)) nows
                       @ take 1 (dropWhile (\<lambda>now. flt (progressAt start (Fin d) now) (Fin 1))
                            nows))))))"
    unfolding animateFill_def frames_width again ..
  have c6: "styleWidth (fst (animateFill f tg (Fin d) start nows))
      = Some (fadd (startWidthOf f) (fmul (fsub tg (startWidthOf f)) (Fin 1)))"
    if "snd (animateFill f tg (Fin d) start nows)" for tg
    using that frames_final [OF assms, of start "startWidthOf f" tg nows f]
    by (simp add: animateFill_def)
  have c7: "styleWidth (fst (animateFill f (Fin (of_int b)) (Fin d) start nows)) = Some (Fin (of_int b))
      \<and> startWidthOf (fst (animateFill f (Fin (of_int b)) (Fin d) start nows)) = Fin (of_int b)"
    if h: "snd (animateFill f (Fin (of_int b)) (Fin d) start nows)
      \<and> startWidthOf f = Fin (of_int a) \<and> \<bar>a\<bar> < 2 ^ 52 \<and> \<bar>b\<bar> < 2 ^ 52"
  proof -
    from h c6 [of "Fin (of_int b)"]
    have "styleWidth (fst (animateFill f (Fin (of_int b)) (Fin d) start nows))
        = Some (fadd (Fin (of_int a)) (fmul (fsub (Fin (of_int b)) (Fin (of_int a))) (Fin 1)))"
      by simp
    also have "\<dots> = Some (Fin (of_int b))"
      using h by (simp only: integers_exact)
    finally have w: "styleWidth (fst (animateFill f (Fin (of_int b)) (Fin d) start nows))
        = Some (Fin (of_int b))" .
    then have "startWidthOf (fst (animateFill f (Fin (of_int b)) (Fin d) start nows)) = Fin (of_int b)"
      by (auto simp: startWidthOf_def)
    with w show ?thesis by simp
  qed
  have i1: "start \<le> now \<and> \<bar>x\<bar> \<le> 100 \<and> \<bar>y\<bar> \<le> 100
      \<longrightarrow> (\<exists>t w. progressAt start (Fin d) now = Fin t \<and> 0 \<le> t \<and> t \<le> 1
            \<and> fst (frame start (Fin x) (Fin y) (Fin d) now) = Fin w
            \<and> \<bar>w - (x + (y - x) * easeInOutQuad_spec t)\<bar> \<le> 1 / 2 ^ 40)"
  proof
    assume h: "start \<le> now \<and> \<bar>x\<bar> \<le> 100 \<and> \<bar>y\<bar> \<le> 100"
    with progressAt_range [OF assms, of start now] obtain t where
      t: "progressAt start (Fin d) now = Fin t" "0 \<le> t" "t \<le> 1"
      by blast
    from h frame_near [OF t, of x y] obtain w where
      "fst (frame start (Fin x) (Fin y) (Fin d) now) = Fin w"
      "\<bar>w - (x + (y - x) * easeInOutQuad_spec t)\<bar> \<le> 1 / 2 ^ 40"
      by blast
    with t show "\<exists>t w. progressAt start (Fin d) now = Fin t \<and> 0 \<le> t \<and> t \<le> 1
        \<and> fst (frame start (Fin x) (Fin y) (Fin d) now) = Fin w
        \<and> \<bar>w - (x + (y - x) * easeInOutQuad_spec t)\<bar> \<le> 1 / 2 ^ 40"
      by blast
  qed
  have i2: "\<not> flt ?t (Fin 1)
      \<longrightarrow> ?t = Fin 1
        \<and> fst (frame start sw target (Fin d) now) = fadd sw (fmul (fsub target sw) (Fin 1))"
    by (rule impI) (rule c2)
  have i3: "\<not> flt ?t (Fin 1) \<and> \<bar>a\<bar> < 2 ^ 52 \<and> \<bar>b\<bar> < 2 ^ 52
      \<longrightarrow> fst (frame start (Fin (of_int a)) (Fin (of_int b)) (Fin d) now) = Fin (of_int b)"
    by (rule impI) (rule c3)
  have i6: "snd (animateFill f target (Fin d) start nows)
      \<longrightarrow> styleWidth (fst (animateFill f target (Fin d) start nows))
          = Some (fadd (startWidthOf f) (fmul (fsub target (startWidthOf f)) (Fin 1)))"
    by (rule impI) (rule c6)
  have i7: "snd (animateFill f (Fin (of_int b)) (Fin d) start nows)
        \<and> startWidthOf f = Fin (of_int a) \<and> \<bar>a\<bar> < 2 ^ 52 \<and> \<bar>b\<bar> < 2 ^ 52
      \<longrightarrow> styleWidth (fst (animateFill f (Fin (of_int b)) (Fin d) start nows))
            = Some (Fin (of_int b))
        \<and> startWidthOf (fst (animateFill f (Fin (of_int b)) (Fin d) start nows))
            = Fin (of_int b)"
    by (rule impI) (rule c7)
  from c1 i1 i2 i3 c4 c5 i6 i7 show ?thesis
    by (intro conjI) assumption+
qed

text \<open>
  The theorem at the call \<^verbatim>\<open>animateFill(fill, 100, 2000)\<close> on an empty indicator, with frames
  at 500, 1000, 2000 and 2500 milliseconds after the start: the frame at 2000 resolves
  the promise with the width 100, the frame at 2500 never runs, and half way the width
  is 50; a frame at 200 milliseconds writes a width within \<open>2^-40\<close> of the exact one.
\<close>

theorem C7_animateFill_eased_witness:
  "(0::rat) < 2000
   \<and> \<not> flt (progressAt 0 (Fin 2000) 2000) (Fin 1)
   \<and> startWidthOf \<lparr>styleWidth = None\<rparr> = Fin (of_int 0)
   \<and> \<bar>0::int\<bar> < 2 ^ 52 \<and> \<bar>100::int\<bar> < 2 ^ 52
   \<and> snd (animateFill \<lparr>styleWidth = None\<rparr> (Fin (of_int 100)) (Fin 2000) 0 [500, 1000, 2000, 2500])
   \<and> styleWidth (fst (animateFill \<lparr>styleWidth = None\<rparr> (Fin (of_int 100)) (Fin 2000) 0
        [500, 1000, 2000, 2500])) = Some (Fin 100)
   \<and> fst (frame 0 (Fin (of_int 0)) (Fin (of_int 100)) (Fin 2000) 2000) = Fin 100
   \<and> fst (frame 0 (Fin 0) (Fin 100) (Fin 2000) 1000) = Fin 50
   \<and> (0::rat) \<le> 200 \<and> \<bar>0::rat\<bar> \<le> 100 \<and> \<bar>100::rat\<bar> \<le> 100
   \<and> (\<exists>t w. progressAt 0 (Fin 2000) 200 = Fin t \<and> 0 \<le> t \<and> t \<le> 1
         \<and> fst (frame 0 (Fin 0) (Fin 100) (Fin 2000) 200) = Fin w
         \<and> \<bar>w - (0 + (100 - 0) * easeInOutQuad_spec t)\<bar> \<le> 1 / 2 ^ 40)"
proof -
  have h: "(0::rat) < 2000" by simp
  have t: "\<not> flt (progressAt 0 (Fin 2000) 2000) (Fin 1)"
    by (simp add: progressAt_def fmin_def toDouble_eval)
  have s: "startWidthOf \<lparr>styleWidth = None\<rparr> = Fin (of_int 0)"
    by (simp add: startWidthOf_def)
  have i: "\<bar>0::int\<bar> < 2 ^ 52" "\<bar>100::int\<bar> < 2 ^ 52"
    by simp_all
  note inst = C7_animateFill_eased [OF h, where start = 0 and sw = "Fin 0"
      and target = "Fin (of_int 100)" and now = 2000 and a = 0 and b = 100
      and f = "\<lparr>styleWidth = None\<rparr>" and nows = "[500, 1000, 2000, 2500]"]
  note between = C7_animateFill_eased [OF h, where start = 0 and now = 200 and x = 0
      and y = 100, THEN conjunct2, THEN conjunct1]
  have r: "snd (animateFill \<lparr>styleWidth = None\<rparr> (Fin (of_int 100)) (Fin 2000) 0
      [500, 1000, 2000, 2500])"
    using inst [THEN conjunct2, THEN conjunct2, THEN conjunct2, THEN conjunct2, THEN conjunct1] t
    by auto
  have w: "styleWidth (fst (animateFill \<lparr>styleWidth = None\<rparr> (Fin (of_int 100)) (Fin 2000) 0
      [500, 1000, 2000, 2500])) = Some (Fin 100)"
    using inst [THEN conjunct2, THEN conjunct2, THEN conjunct2, THEN conjunct2, THEN conjunct2,
        THEN conjunct2, THEN conjunct2] r s i by simp
  have e: "fst (frame 0 (Fin (of_int 0)) (Fin (of_int 100)) (Fin 2000) 2000) = Fin 100"
    using inst [THEN conjunct2, THEN conjunct2, THEN conjunct2, THEN conjunct1] t i by simp
  have m: "fst (frame 0 (Fin 0) (Fin 100) (Fin 2000) 1000) = Fin 50"
    by (simp add: frame_def progressAt_def fmin_def eased_def fpow2_def fsub_def toDouble_eval)
  have g: "(0::rat) \<le> 200" "\<bar>0::rat\<bar> \<le> 100" "\<bar>100::rat\<bar> \<le> 100"
    by simp_all
  have n: "\<exists>t w. progressAt 0 (Fin 2000) 200 = Fin t \<and> 0 \<le> t \<and> t \<le> 1
      \<and> fst (frame 0 (Fin 0) (Fin 100) (Fin 2000) 200) = Fin w
      \<and> \<bar>w - (0 + (100 - 0) * easeInOutQuad_spec t)\<bar> \<le> 1 / 2 ^ 40"
    using between g by (intro mp [OF between] conjI)
  from h t s i r w e m g n show ?thesis
    by (intro conjI) assumption+
qed

text \<open>
  C7, as the claim words it ("for every call", "the final value is exactly
  \<^verbatim>\<open>targetPercent\<close>"). The code has no step that sets the target at the end: the final
  width is computed like every other one.

  \<^item> With the duration \<open>0\<close> and a first frame at the very time of the call, \<^verbatim>\<open>0 / 0\<close> is
    \<open>NaN\<close>: the frame writes \<^verbatim>\<open>NaN%\<close> and, \<^verbatim>\<open>NaN < 1\<close> being false, resolves the promise.
  \<^item> From the start width \<open>0.2\<close> to the target \<open>0.9\<close> in 1000 milliseconds, the frame at
    \<open>t = 1\<close> resolves the promise with the width \<open>0.2 + (0.9 - 0.2) * 1\<close>, which in doubles
    is \<open>0.8999999999999999\<close> (\<open>8106479329266892 / 2^53\<close>) and not the double \<open>0.9\<close>
    (\<open>8106479329266893 / 2^53\<close>).
  \<^item> Between the ends the width is the formula up to rounding only: from 0 to 100 in
    2000 milliseconds, the frame at \<open>t = 0.1\<close> writes \<open>2.0000000000000004\<close>
    (\<open>2 + 2^-51\<close>), not \<open>100 * (2 * 0.1 * 0.1) = 2\<close>.
\<close>

theorem C7_final_value_not_exact:
  "animateFill \<lparr>styleWidth = None\<rparr> (Fin 100) (Fin 0) 0 [0] = (\<lparr>styleWidth = Some FNaN\<rparr>, True)
   \<and> toDouble (2 / 10) = Fin (3602879701896397 / 2 ^ 54)
   \<and> toDouble (9 / 10) = Fin (8106479329266893 / 2 ^ 53)
   \<and> animateFill \<lparr>styleWidth = Some (Fin (3602879701896397 / 2 ^ 54))\<rparr>
        (Fin (8106479329266893 / 2 ^ 53)) (Fin 1000) 0 [1000]
       = (\<lparr>styleWidth = Some (Fin (8106479329266892 / 2 ^ 53))\<rparr>, True)
   \<and> fst (frame 0 (Fin 0) (Fin 100) (Fin 2000) 200) = Fin (4503599627370497 / 2 ^ 51)"
  by (simp add: animateFill_def startWidthOf_def frame_def progressAt_def fmin_def eased_def
      fpow2_def fsub_def infinity_def toDouble_eval)

section \<open>Properties of the progress sequencer\<close>

lemma growsBy_refl: "growsBy P a a"
  by (simp add: growsBy_def)

lemma growsBy_trans:
  assumes "growsBy P a b" and "growsBy P b c"
  shows "growsBy P a c"
proof -
  from assms(1) obtain n1 where 1: "clock a \<le> clock b" "entries b = entries a @ n1"
    "\<forall>x \<in> set n1. P (item x) \<and> clock a \<le> begins x \<and> begins x \<le> ends x \<and> ends x \<le> clock b"
    unfolding growsBy_def by blast
  from assms(2) obtain n2 where 2: "clock b \<le> clock c" "entries c = entries b @ n2"
    "\<forall>x \<in> set n2. P (item x) \<and> clock b \<le> begins x \<and> begins x \<le> ends x \<and> ends x \<le> clock c"
    unfolding growsBy_def by blast
  have "entries c = entries a @ (n1 @ n2)"
    using 1(2) 2(2) by simp
  moreover have "\<forall>x \<in> set (n1 @ n2). P (item x) \<and> clock a \<le> begins x \<and> begins x \<le> ends x
      \<and> ends x \<le> clock c"
    using 1 2 by fastforce
  moreover have "clock a \<le> clock c"
    using 1(1) 2(1) by simp
  ultimately show ?thesis
    unfolding growsBy_def by blast
qed

lemma growsBy_mono:
  assumes "growsBy P a b" and "\<And>j. P j \<Longrightarrow> Q j"
  shows "growsBy Q a b"
  using assms unfolding growsBy_def by blast

lemma growsBy_emit: "P i \<Longrightarrow> growsBy P t (emit i e t)"
  by (simp add: growsBy_def emit_def)

lemma growsBy_sleep: "0 \<le> ms \<Longrightarrow> growsBy P t (sleep ms t)"
  by (simp add: growsBy_def sleep_def)

lemma growsBy_awaitFill:
  "awaitFill i target dur t = Some t' \<Longrightarrow> P i \<Longrightarrow> growsBy P t t'"
  by (auto simp: growsBy_def awaitFill_def split: if_splits)

lemma growsBy_then_emit: "growsBy P a b \<Longrightarrow> P i \<Longrightarrow> growsBy P a (emit i e b)"
  by (erule growsBy_trans) (rule growsBy_emit)

lemma growsBy_then_sleep: "growsBy P a b \<Longrightarrow> 0 \<le> ms \<Longrightarrow> growsBy P a (sleep ms b)"
  by (erule growsBy_trans) (rule growsBy_sleep)

lemma growsBy_then_awaitFill:
  "growsBy P a b \<Longrightarrow> awaitFill i target dur b = Some c \<Longrightarrow> P i \<Longrightarrow> growsBy P a c"
  by (erule growsBy_trans) (rule growsBy_awaitFill)

lemma runStep_normal:
  assumes "runStep i s a = Some b" and "failPoint s = None"
  shows "\<exists>t5. awaitFill i 100 (duration s)
               (sleep 200 (emit i (ItemClass ''visible'') (sleep 300 (emit i AppendItem a)))) = Some t5
      \<and> b = sleep 400 (emit i StatusTick (emit i (StatusClass ''done'') (emit i (StatusText []) t5)))"
  using assms
  by (simp add: runStep_def Let_def bind_eq_Some_conv eq_commute [of b])

lemma runStep_fails:
  assumes "runStep i s a = Some b" and "failPoint s = Some p"
  shows "\<exists>t5 t8 t11.
        awaitFill i p (duration s * (p / 100))
          (sleep 200 (emit i (ItemClass ''visible'') (sleep 300 (emit i AppendItem a)))) = Some t5
      \<and> awaitFill i (p + 1) 400 (sleep 800 (emit i (StatusPercent p) t5)) = Some t8
      \<and> awaitFill i (p - 2) 200 (sleep 600 (emit i (StatusPercent (p + 1)) t8)) = Some t11
      \<and> b = sleep 1200 (emit i (FillBackground errorBackground)
               (emit i (StatusClass ''fail'') (emit i (StatusText ''FAILED'') t11)))"
  using assms
  by (simp add: runStep_def Let_def bind_eq_Some_conv eq_commute [of b])

lemma runStep_growsBy:
  assumes "runStep i s a = Some b" and "P i"
  shows "growsBy P a b"
proof -
  let ?t4 = "sleep 200 (emit i (ItemClass ''visible'') (sleep 300 (emit i AppendItem a)))"
  have t4: "growsBy P a ?t4"
    by (intro growsBy_then_emit growsBy_then_sleep growsBy_refl assms(2)) simp_all
  show ?thesis
  proof (cases "failPoint s")
    case None
    from runStep_normal [OF assms(1) None] obtain t5 where
      f: "awaitFill i 100 (duration s) ?t4 = Some t5"
      and b: "b = sleep 400 (emit i StatusTick (emit i (StatusClass ''done'') (emit i (StatusText []) t5)))"
      by blast
    have "growsBy P a t5"
      by (rule growsBy_then_awaitFill [OF t4 f assms(2)])
    then show ?thesis
      unfolding b by (intro growsBy_then_emit growsBy_then_sleep assms(2)) simp_all
  next
    case (Some p)
    from runStep_fails [OF assms(1) Some] obtain t5 t8 t11 where
      f1: "awaitFill i p (duration s * (p / 100)) ?t4 = Some t5"
      and f2: "awaitFill i (p + 1) 400 (sleep 800 (emit i (StatusPercent p) t5)) = Some t8"
      and f3: "awaitFill i (p - 2) 200 (sleep 600 (emit i (StatusPercent (p + 1)) t8)) = Some t11"
      and b: "b = sleep 1200 (emit i (FillBackground errorBackground)
                 (emit i (StatusClass ''fail'') (emit i (StatusText ''FAILED'') t11)))"
      by blast
    have g5: "growsBy P a t5"
      by (rule growsBy_then_awaitFill [OF t4 f1 assms(2)])
    have g7: "growsBy P a (sleep 800 (emit i (StatusPercent p) t5))"
      using g5 by (intro growsBy_then_emit growsBy_then_sleep assms(2)) simp_all
    have g8: "growsBy P a t8"
      by (rule growsBy_then_awaitFill [OF g7 f2 assms(2)])
    have g10: "growsBy P a (sleep 600 (emit i (StatusPercent (p + 1)) t8))"
      using g8 by (intro growsBy_then_emit growsBy_then_sleep assms(2)) simp_all
    have g11: "growsBy P a t11"
      by (rule growsBy_then_awaitFill [OF g10 f3 assms(2)])
    then show ?thesis
      unfolding b by (intro growsBy_then_emit growsBy_then_sleep assms(2)) simp_all
  qed
qed

lemma runSteps_growsBy:
  "runSteps k ss a = Some b \<Longrightarrow> growsBy (\<lambda>j. k \<le> j \<and> j < k + length ss) a b"
proof (induction ss arbitrary: k a)
  case Nil
  then show ?case by (simp add: growsBy_refl)
next
  case (Cons s ss)
  from Cons.prems obtain t where s: "runStep k s a = Some t" and r: "runSteps (Suc k) ss t = Some b"
    by (auto simp: bind_eq_Some_conv)
  have "growsBy (\<lambda>j. k \<le> j \<and> j < k + length (s # ss)) a t"
    by (rule runStep_growsBy [OF s]) simp
  moreover have "growsBy (\<lambda>j. k \<le> j \<and> j < k + length (s # ss)) t b"
    by (rule growsBy_mono [OF Cons.IH [OF r]]) simp
  ultimately show ?case by (rule growsBy_trans)
qed

lemma runSteps_split:
  "runSteps k ss a = Some b \<Longrightarrow> i < length ss \<Longrightarrow>
     \<exists>t1 t2. runSteps k (take i ss) a = Some t1
       \<and> runStep (k + i) (ss ! i) t1 = Some t2
       \<and> runSteps (Suc (k + i)) (drop (Suc i) ss) t2 = Some b"
proof (induction ss arbitrary: k a i)
  case Nil
  then show ?case by simp
next
  case (Cons s ss)
  from Cons.prems(1) obtain t where s: "runStep k s a = Some t" and r: "runSteps (Suc k) ss t = Some b"
    by (auto simp: bind_eq_Some_conv)
  show ?case
  proof (cases i)
    case 0
    then show ?thesis using s r by simp
  next
    case (Suc j)
    then have "j < length ss" using Cons.prems(2) by simp
    from Cons.IH [OF r this] Suc s show ?thesis by simp
  qed
qed

lemma awaitFill_Some:
  assumes "awaitFill i target dur t = Some t'"
  shows "entries t' = entries t @ [\<lparr>item = i, begins = clock t, ends = clock t + dur,
                                     effect = FillTo target dur\<rparr>]"
    and "clock t' = clock t + dur"
  using assms by (auto simp: awaitFill_def split: if_splits)

lemma entries_emit [simp]:
  "entries (emit i e t) = entries t @ [\<lparr>item = i, begins = clock t, ends = clock t, effect = e\<rparr>]"
  by (simp add: emit_def)

lemma clock_emit [simp]: "clock (emit i e t) = clock t"
  by (simp add: emit_def)

lemma entries_sleep [simp]: "entries (sleep ms t) = entries t"
  by (simp add: sleep_def)

lemma clock_sleep [simp]: "clock (sleep ms t) = clock t + ms"
  by (simp add: sleep_def)

lemma runStep_failing:
  assumes "runStep i s a = Some b" and "failPoint s = Some p"
  shows "map (\<lambda>x. (item x, effect x, begins x - clock a, ends x - clock a))
             (drop (length (entries a)) (entries b))
         = [(i, AppendItem, 0, 0),
            (i, ItemClass ''visible'', 300, 300),
            (i, FillTo p (duration s * (p / 100)), 500, 500 + duration s * (p / 100)),
            (i, StatusPercent p, 500 + duration s * (p / 100), 500 + duration s * (p / 100)),
            (i, FillTo (p + 1) 400, 1300 + duration s * (p / 100), 1700 + duration s * (p / 100)),
            (i, StatusPercent (p + 1), 1700 + duration s * (p / 100), 1700 + duration s * (p / 100)),
            (i, FillTo (p - 2) 200, 2300 + duration s * (p / 100), 2500 + duration s * (p / 100)),
            (i, StatusText ''FAILED'', 2500 + duration s * (p / 100), 2500 + duration s * (p / 100)),
            (i, StatusClass ''fail'', 2500 + duration s * (p / 100), 2500 + duration s * (p / 100)),
            (i, FillBackground errorBackground,
               2500 + duration s * (p / 100), 2500 + duration s * (p / 100))]
       \<and> clock b = clock a + 3700 + duration s * (p / 100)"
proof -
  let ?t4 = "sleep 200 (emit i (ItemClass ''visible'') (sleep 300 (emit i AppendItem a)))"
  from runStep_fails [OF assms] obtain t5 t8 t11 where
    f1: "awaitFill i p (duration s * (p / 100)) ?t4 = Some t5"
    and f2: "awaitFill i (p + 1) 400 (sleep 800 (emit i (StatusPercent p) t5)) = Some t8"
    and f3: "awaitFill i (p - 2) 200 (sleep 600 (emit i (StatusPercent (p + 1)) t8)) = Some t11"
    and b: "b = sleep 1200 (emit i (FillBackground errorBackground)
               (emit i (StatusClass ''fail'') (emit i (StatusText ''FAILED'') t11)))"
    by blast
  note e = awaitFill_Some [OF f1] awaitFill_Some [OF f2] awaitFill_Some [OF f3]
  show ?thesis
    unfolding b by (simp add: e)
qed


text \<open>
  C6. Let \<open>runProgress\<close> on a list of steps resolve with the time line \<open>t\<close>, and let
  \<open>i\<close> be the index of a step. Then the run falls into three parts: the steps before
  \<open>i\<close>, up to a time line \<open>t1\<close>; the step \<open>i\<close>, from \<open>t1\<close> to \<open>t2\<close>; the steps after
  \<open>i\<close> and the final pause, from \<open>t2\<close> to \<open>t\<close>. Every effect on an earlier item has
  ended by the clock of \<open>t1\<close>; the effects of step \<open>i\<close> lie between the clocks of
  \<open>t1\<close> and \<open>t2\<close>; every effect on a later item begins at the clock of \<open>t2\<close> or
  later, that is, after the whole sequence of step \<open>i\<close> with its last pause. And when
  step \<open>i\<close> has the failure point \<open>p\<close>, its effects are, with their times since the
  clock of \<open>t1\<close>: the item is appended and made visible, the fill goes to \<open>p\<close> over
  \<open>duration * (p / 100)\<close>, after a pause of 800 to \<open>p + 1\<close> over 400, after a pause
  of 600 down to \<open>p - 2\<close> over 200, the status becomes FAILED with the class
  \<^verbatim>\<open>fail\<close> and the fill gets the error background; the step resolves 1200 later.
\<close>

theorem C6_steps_strictly_in_sequence:
  assumes "runProgressOn psteps = Some t" and "i < length psteps"
  shows "\<exists>t1 t2 t3.
        runSteps 0 (take i psteps) \<lparr>clock = 0, entries = []\<rparr> = Some t1
      \<and> runStep i (psteps ! i) t1 = Some t2
      \<and> runSteps (Suc i) (drop (Suc i) psteps) t2 = Some t3
      \<and> t = sleep 600 t3
      \<and> growsBy (\<lambda>j. j < i) \<lparr>clock = 0, entries = []\<rparr> t1
      \<and> growsBy (\<lambda>j. j = i) t1 t2
      \<and> growsBy (\<lambda>j. i < j) t2 t
      \<and> (\<forall>p. failPoint (psteps ! i) = Some p \<longrightarrow>
            map (\<lambda>x. (item x, effect x, begins x - clock t1, ends x - clock t1))
                (drop (length (entries t1)) (entries t2))
              = [(i, AppendItem, 0, 0),
                 (i, ItemClass ''visible'', 300, 300),
                 (i, FillTo p (duration (psteps ! i) * (p / 100)),
                    500, 500 + duration (psteps ! i) * (p / 100)),
                 (i, StatusPercent p,
                    500 + duration (psteps ! i) * (p / 100), 500 + duration (psteps ! i) * (p / 100)),
                 (i, FillTo (p + 1) 400,
                    1300 + duration (psteps ! i) * (p / 100), 1700 + duration (psteps ! i) * (p / 100)),
                 (i, StatusPercent (p + 1),
                    1700 + duration (psteps ! i) * (p / 100), 1700 + duration (psteps ! i) * (p / 100)),
                 (i, FillTo (p - 2) 200,
                    2300 + duration (psteps ! i) * (p / 100), 2500 + duration (psteps ! i) * (p / 100)),
                 (i, StatusText ''FAILED'',
                    2500 + duration (psteps ! i) * (p / 100), 2500 + duration (psteps ! i) * (p / 100)),
                 (i, StatusClass ''fail'',
                    2500 + duration (psteps ! i) * (p / 100), 2500 + duration (psteps ! i) * (p / 100)),
                 (i, FillBackground errorBackground,
                    2500 + duration (psteps ! i) * (p / 100), 2500 + duration (psteps ! i) * (p / 100))]
            \<and> clock t2 = clock t1 + 3700 + duration (psteps ! i) * (p / 100))"
proof -
  let ?init = "\<lparr>clock = 0, entries = []\<rparr> :: timeline"
  from assms(1) obtain t3 where all: "runSteps 0 psteps ?init = Some t3" and t: "t = sleep 600 t3"
    by (auto simp: runProgressOn_def bind_eq_Some_conv)
  from runSteps_split [OF all assms(2)] obtain t1 t2 where
    before: "runSteps 0 (take i psteps) ?init = Some t1"
    and this_step: "runStep i (psteps ! i) t1 = Some t2"
    and after: "runSteps (Suc i) (drop (Suc i) psteps) t2 = Some t3"
    by auto
  have len: "length (take i psteps) = i"
    using assms(2) by simp
  have g1: "growsBy (\<lambda>j. j < i) ?init t1"
    by (rule growsBy_mono [OF runSteps_growsBy [OF before]]) (simp add: len)
  have g2: "growsBy (\<lambda>j. j = i) t1 t2"
    by (rule runStep_growsBy [OF this_step]) simp
  have "growsBy (\<lambda>j. i < j) t2 t3"
    by (rule growsBy_mono [OF runSteps_growsBy [OF after]]) simp
  then have g3: "growsBy (\<lambda>j. i < j) t2 t"
    unfolding t by (rule growsBy_then_sleep) simp
  from before this_step after t g1 g2 g3 runStep_failing [OF this_step]
  show ?thesis by blast
qed

theorem C6_steps_strictly_in_sequence_witness:
  "4 < length STEPS
   \<and> (\<exists>t. runProgress = Some t \<and> clock t = 19310)
   \<and> (\<exists>t1 t2. runStep 4 (STEPS ! 4) t1 = Some t2 \<and> clock t1 = 12400 \<and> clock t2 = 18710
         \<and> growsBy (\<lambda>j. j < 4) \<lparr>clock = 0, entries = []\<rparr> t1
         \<and> growsBy (\<lambda>j. j = 4) t1 t2)"
proof -
  have h: "4 < length STEPS"
    by (simp add: STEPS_def)
  have "\<exists>t. runProgressOn STEPS = Some t \<and> clock t = 19310"
    by (simp add: runProgressOn_def STEPS_def runStep_def failPoint_def awaitFill_def emit_def
        sleep_def Let_def)
  then obtain t where ev: "runProgressOn STEPS = Some t" and end_time: "clock t = 19310"
    by (elim exE conjE)
  from C6_steps_strictly_in_sequence [OF ev h] obtain t1 t2 where
    before: "runSteps 0 (take 4 STEPS) \<lparr>clock = 0, entries = []\<rparr> = Some t1"
    and this_step: "runStep 4 (STEPS ! 4) t1 = Some t2"
    and g: "growsBy (\<lambda>j. j < 4) \<lparr>clock = 0, entries = []\<rparr> t1" "growsBy (\<lambda>j. j = 4) t1 t2"
    and fp: "\<forall>p. failPoint (STEPS ! 4) = Some p \<longrightarrow>
               clock t2 = clock t1 + 3700 + duration (STEPS ! 4) * (p / 100)"
    by blast
  have c1: "clock t1 = 12400"
    using before
    by (auto simp: STEPS_def runStep_def failPoint_def awaitFill_def emit_def sleep_def Let_def)
  have "failPoint (STEPS ! 4) = Some 87" "duration (STEPS ! 4) = 3000"
    by (simp_all add: STEPS_def failPoint_def)
  with fp c1 have c2: "clock t2 = 18710"
    by simp
  from h ev end_time this_step c1 c2 g show ?thesis
    unfolding runProgress_def by blast
qed

end
